theory Spec2Isabelle
  imports Main
begin

unbundle bit_operations_syntax

section \<open>The Python runtime as far as breakc.py uses it\<close>

text \<open>
  A Python \<open>str\<close> is a sequence of Unicode code points. The model uses \<open>string\<close>, whose
  characters are the code points below 256, so \<open>CHR 0xB2\<close> is the single code point
  U+00B2 (superscript two). Python's \<open>int\<close> is unbounded and is modelled by \<open>int\<close>.
  An exception is the \<open>Inl\<close> of a sum; \<open>sys.exit(n)\<close> is the error \<open>SystemExit n\<close>.
  Text printed to the console or to the error stream is not modelled.
\<close>

datatype py_error = ValueError | SystemExit int

text \<open>\<open>s.split('.')\<close>: the pieces between the dots; never an empty list.\<close>

fun split_dot :: "string \<Rightarrow> string list" where
  "split_dot [] = [[]]"
| "split_dot (c # cs) =
     (if c = CHR ''.'' then [] # split_dot cs
      else (case split_dot cs of
              [] \<Rightarrow> [[c]]
            | p # ps \<Rightarrow> (c # p) # ps))"

text \<open>\<open>'.'.join(parts)\<close>.\<close>

fun join_dot :: "string list \<Rightarrow> string" where
  "join_dot [] = []"
| "join_dot [p] = p"
| "join_dot (p # q # ps) = p @ CHR ''.'' # join_dot (q # ps)"

text \<open>
  The characters \<open>0\<close> to \<open>9\<close>, and \<open>str.isdigit\<close>: true of a non-empty string whose
  characters all have the Unicode property Numeric_Type Digit or Decimal. Below 256
  these are the ten ASCII digits and the superscripts U+00B2, U+00B3 and U+00B9.
\<close>

definition is_ascii_digit :: "char \<Rightarrow> bool" where
  "is_ascii_digit c \<longleftrightarrow> 48 \<le> (of_char c :: nat) \<and> (of_char c :: nat) \<le> 57"

definition digit_val :: "char \<Rightarrow> nat" where
  "digit_val c = of_char c - 48"

definition isdigit_char :: "char \<Rightarrow> bool" where
  "isdigit_char c \<longleftrightarrow> is_ascii_digit c \<or> c = CHR 0xB2 \<or> c = CHR 0xB3 \<or> c = CHR 0xB9"

definition isdigit :: "string \<Rightarrow> bool" where
  "isdigit s \<longleftrightarrow> s \<noteq> [] \<and> list_all isdigit_char s"

text \<open>
  \<open>str.strip()\<close> removes the characters that \<open>str.isspace\<close> accepts from both ends:
  below 256 these are U+0009 to U+000D, U+001C to U+0020, U+0085 and U+00A0.
\<close>

definition isspace_char :: "char \<Rightarrow> bool" where
  "isspace_char c \<longleftrightarrow>
     (let n = (of_char c :: nat)
      in (9 \<le> n \<and> n \<le> 13) \<or> (28 \<le> n \<and> n \<le> 32) \<or> n = 133 \<or> n = 160)"

definition strip :: "string \<Rightarrow> string" where
  "strip s = rev (dropWhile isspace_char (rev (dropWhile isspace_char s)))"

text \<open>
  \<open>int(s)\<close> for a string, base ten: white space around the literal is dropped (here the
  separators U+001C to U+001F do not count as white space), then comes an optional sign
  and a non-empty run of ASCII digits in which single underscores may separate digits.
  Anything else raises \<open>ValueError\<close>. The optional limit on the number of digits
  (\<open>sys.set_int_max_str_digits\<close>) is taken to be switched off.
\<close>

definition int_space_char :: "char \<Rightarrow> bool" where
  "int_space_char c \<longleftrightarrow>
     (let n = (of_char c :: nat)
      in (9 \<le> n \<and> n \<le> 13) \<or> n = 32 \<or> n = 133 \<or> n = 160)"

fun parse_digits :: "nat \<Rightarrow> string \<Rightarrow> nat option" where
  "parse_digits acc [] = Some acc"
| "parse_digits acc [c] =
     (if is_ascii_digit c then Some (acc * 10 + digit_val c) else None)"
| "parse_digits acc (c # d # ds) =
     (if is_ascii_digit c then parse_digits (acc * 10 + digit_val c) (d # ds)
      else if c = CHR ''_'' \<and> is_ascii_digit d then parse_digits (acc * 10 + digit_val d) ds
      else None)"

definition parse_number :: "string \<Rightarrow> nat option" where
  "parse_number s =
     (case s of
        [] \<Rightarrow> None
      | c # cs \<Rightarrow> if is_ascii_digit c then parse_digits (digit_val c) cs else None)"

definition py_int :: "string \<Rightarrow> py_error + int" where
  "py_int s =
     (let t = rev (dropWhile int_space_char (rev (dropWhile int_space_char s)))
      in case t of
           [] \<Rightarrow> Inl ValueError
         | c # cs \<Rightarrow>
             if c = CHR ''-'' then
               (case parse_number cs of None \<Rightarrow> Inl ValueError | Some n \<Rightarrow> Inr (- int n))
             else if c = CHR ''+'' then
               (case parse_number cs of None \<Rightarrow> Inl ValueError | Some n \<Rightarrow> Inr (int n))
             else
               (case parse_number t of None \<Rightarrow> Inl ValueError | Some n \<Rightarrow> Inr (int n)))"

text \<open>\<open>str(n)\<close> as an f-string field prints it: decimal, no leading zeros, a minus sign
  for a negative number.\<close>

definition digit_char :: "nat \<Rightarrow> char" where
  "digit_char d = char_of (48 + d)"

fun py_str_nat :: "nat \<Rightarrow> string" where
  "py_str_nat n =
     (if n < 10 then [digit_char n] else py_str_nat (n div 10) @ [digit_char (n mod 10)])"

declare py_str_nat.simps [simp del]

definition py_str :: "int \<Rightarrow> string" where
  "py_str i = (if i < 0 then CHR ''-'' # py_str_nat (nat (- i)) else py_str_nat (nat i))"

section \<open>Address conversion\<close>

text \<open>\<open>ip_to_int\<close>: four parts or \<open>ValueError\<close>; each part goes through \<open>int\<close>, which may
  raise \<open>ValueError\<close> too; the four values are shifted and added.\<close>

definition ip_to_int :: "string \<Rightarrow> py_error + int" where
  "ip_to_int ip =
     (let parts = split_dot ip
      in if length parts \<noteq> 4 then Inl ValueError
         else
           (case py_int (parts ! 0) of Inl e \<Rightarrow> Inl e | Inr a \<Rightarrow>
           (case py_int (parts ! 1) of Inl e \<Rightarrow> Inl e | Inr b \<Rightarrow>
           (case py_int (parts ! 2) of Inl e \<Rightarrow> Inl e | Inr c \<Rightarrow>
           (case py_int (parts ! 3) of Inl e \<Rightarrow> Inl e | Inr d \<Rightarrow>
              Inr (push_bit 24 a + push_bit 16 b + push_bit 8 c + d))))))"

definition int_to_ip :: "int \<Rightarrow> string" where
  "int_to_ip ip_int =
     py_str (drop_bit 24 ip_int AND 255) @ CHR ''.'' #
     py_str (drop_bit 16 ip_int AND 255) @ CHR ''.'' #
     py_str (drop_bit 8 ip_int AND 255) @ CHR ''.'' #
     py_str (ip_int AND 255)"

section \<open>Sorter\<close>

text \<open>A list comprehension over a function that may raise stops at the first exception.\<close>

fun map_err :: "('a \<Rightarrow> py_error + 'b) \<Rightarrow> 'a list \<Rightarrow> py_error + 'b list" where
  "map_err f [] = Inr []"
| "map_err f (x # xs) =
     (case f x of
        Inl e \<Rightarrow> Inl e
      | Inr y \<Rightarrow> (case map_err f xs of Inl e \<Rightarrow> Inl e | Inr ys \<Rightarrow> Inr (y # ys)))"

definition sort_ips :: "string list \<Rightarrow> py_error + string list" where
  "sort_ips ip_list =
     (case map_err ip_to_int ip_list of
        Inl e \<Rightarrow> Inl e
      | Inr ip_ints \<Rightarrow> Inr (map int_to_ip (sort ip_ints)))"

section \<open>Range Filler\<close>

definition generate_ip_range :: "string \<Rightarrow> string \<Rightarrow> py_error + string list" where
  "generate_ip_range start_ip end_ip =
     (case ip_to_int start_ip of Inl e \<Rightarrow> Inl e | Inr start_int \<Rightarrow>
     (case ip_to_int end_ip of Inl e \<Rightarrow> Inl e | Inr end_int \<Rightarrow>
        Inr (map int_to_ip [start_int..end_int])))"

text \<open>The local variables of \<open>process_ips\<close> that live across loop iterations.\<close>

record fill_state =
  result :: "string list"
  previous_ip :: string
  previous_int :: int
  start_ip :: string
  end_ip :: string

text \<open>The first three parts of an address, joined again: \<open>'.'.join(ip.split('.')[:3])\<close>.\<close>

definition network_of :: "string \<Rightarrow> string" where
  "network_of ip = join_dot (take 3 (split_dot ip))"

text \<open>Closing a segment (the same four lines stand in the loop and after it): one
  address as it was read, or the whole range printed anew.\<close>

definition emit_segment :: "fill_state \<Rightarrow> py_error + string list" where
  "emit_segment st =
     (if start_ip st = end_ip st then Inr (result st @ [start_ip st])
      else (case generate_ip_range (start_ip st) (end_ip st) of
              Inl e \<Rightarrow> Inl e
            | Inr r \<Rightarrow> Inr (result st @ r)))"

text \<open>One iteration of the loop, for the address \<open>current_ip\<close>.\<close>

definition process_step :: "fill_state \<Rightarrow> string \<Rightarrow> py_error + fill_state" where
  "process_step st current_ip =
     (case ip_to_int current_ip of Inl e \<Rightarrow> Inl e | Inr current_int \<Rightarrow>
        (let current_network = network_of current_ip;
             previous_network = network_of (previous_ip st);
             diff = current_int - previous_int st
         in if current_network = previous_network \<and> 0 < diff \<and> diff \<le> 6 then
              Inr (st\<lparr>end_ip := current_ip,
                      previous_ip := current_ip, previous_int := current_int\<rparr>)
            else
              (case emit_segment st of Inl e \<Rightarrow> Inl e | Inr r \<Rightarrow>
                 Inr (st\<lparr>result := r, start_ip := current_ip, end_ip := current_ip,
                         previous_ip := current_ip, previous_int := current_int\<rparr>))))"

fun process_loop :: "fill_state \<Rightarrow> string list \<Rightarrow> py_error + fill_state" where
  "process_loop st [] = Inr st"
| "process_loop st (current_ip # rest) =
     (case process_step st current_ip of
        Inl e \<Rightarrow> Inl e
      | Inr st' \<Rightarrow> process_loop st' rest)"

definition process_ips :: "string list \<Rightarrow> py_error + string list" where
  "process_ips sorted_ips =
     (case sorted_ips of
        [] \<Rightarrow> Inr []
      | first # rest \<Rightarrow>
          (case ip_to_int first of Inl e \<Rightarrow> Inl e | Inr first_int \<Rightarrow>
          (case process_loop \<lparr>result = [], previous_ip = first, previous_int = first_int,
                               start_ip = first, end_ip = first\<rparr> rest of
             Inl e \<Rightarrow> Inl e
           | Inr st \<Rightarrow> emit_segment st)))"

section \<open>Reader\<close>

text \<open>
  The test on one part, \<open>part.isdigit() and 0 <= int(part) <= 255\<close>: \<open>int\<close> is only
  called when \<open>isdigit\<close> holds, and may still raise. \<open>all(...)\<close> stops at the first part
  that fails the test.
\<close>

definition part_ok :: "string \<Rightarrow> py_error + bool" where
  "part_ok part =
     (if isdigit part then
        (case py_int part of Inl e \<Rightarrow> Inl e | Inr v \<Rightarrow> Inr (0 \<le> v \<and> v \<le> 255))
      else Inr False)"

fun all_parts_ok :: "string list \<Rightarrow> py_error + bool" where
  "all_parts_ok [] = Inr True"
| "all_parts_ok (part # parts) =
     (case part_ok part of
        Inl e \<Rightarrow> Inl e
      | Inr ok \<Rightarrow> if ok then all_parts_ok parts else Inr False)"

text \<open>The loop over the lines of the file; \<open>ips\<close> is the list built so far.\<close>

fun read_loop :: "string list \<Rightarrow> string list \<Rightarrow> py_error + string list" where
  "read_loop ips [] = Inr ips"
| "read_loop ips (line # rest) =
     (let ip = strip line
      in if ip \<noteq> [] then
           (let parts = split_dot ip
            in if length parts = 4 then
                 (case all_parts_ok parts of
                    Inl e \<Rightarrow> Inl e
                  | Inr ok \<Rightarrow> if ok then read_loop (ips @ [ip]) rest else read_loop ips rest)
               else read_loop ips rest)
         else read_loop ips rest)"

text \<open>\<open>read_ip_file\<close> on a file that exists and has these lines: any exception raised
  inside the loop reaches \<open>except Exception\<close>, which ends the process with status 1.\<close>

definition read_ip_file :: "string list \<Rightarrow> py_error + string list" where
  "read_ip_file lines =
     (case read_loop [] lines of
        Inl e \<Rightarrow> Inl (SystemExit 1)
      | Inr ips \<Rightarrow> Inr ips)"

section \<open>Vocabulary of the specification\<close>

text \<open>The value of a run of ASCII digits read as a decimal numeral.\<close>

definition dec_value :: "string \<Rightarrow> nat" where
  "dec_value p = foldl (\<lambda>a c. a * 10 + digit_val c) 0 p"

text \<open>
  A valid dotted quad in the words of the specification: it splits on the dot into
  exactly four parts, each all-digit and with a value between 0 and 255.
\<close>

definition octet_part :: "string \<Rightarrow> bool" where
  "octet_part p \<longleftrightarrow>
     isdigit p \<and> (case py_int p of Inl e \<Rightarrow> False | Inr v \<Rightarrow> 0 \<le> v \<and> v \<le> 255)"

definition valid_ip :: "string \<Rightarrow> bool" where
  "valid_ip s \<longleftrightarrow> length (split_dot s) = 4 \<and> list_all octet_part (split_dot s)"

text \<open>A part written the way \<open>int_to_ip\<close> prints it: ASCII digits without a leading zero.\<close>

definition canonical_part :: "string \<Rightarrow> bool" where
  "canonical_part p \<longleftrightarrow>
     p \<noteq> [] \<and> list_all is_ascii_digit p \<and> (p = ''0'' \<or> hd p \<noteq> CHR ''0'')"

definition canonical_ip :: "string \<Rightarrow> bool" where
  "canonical_ip s \<longleftrightarrow> list_all canonical_part (split_dot s)"

text \<open>An address string that \<open>ip_to_int\<close> converts without raising.\<close>

definition has_value :: "string \<Rightarrow> bool" where
  "has_value s \<longleftrightarrow> (case ip_to_int s of Inl e \<Rightarrow> False | Inr v \<Rightarrow> True)"

text \<open>The integer value of an address string, where \<open>ip_to_int\<close> returns one.\<close>

definition ip_val :: "string \<Rightarrow> int" where
  "ip_val s = (case ip_to_int s of Inl e \<Rightarrow> 0 | Inr v \<Rightarrow> v)"

text \<open>The condition under which the Range Filler joins \<open>cur\<close> to the segment ending in
  \<open>prev\<close>.\<close>

definition fillable :: "string \<Rightarrow> string \<Rightarrow> bool" where
  "fillable prev cur \<longleftrightarrow>
     network_of cur = network_of prev \<and> 0 < ip_val cur - ip_val prev
     \<and> ip_val cur - ip_val prev \<le> 6"

text \<open>
  The Reader in the words of the specification: strip every line, drop the blank ones,
  keep the valid ones in their order.
\<close>

definition reader_spec :: "string list \<Rightarrow> string list" where
  "reader_spec lines = filter valid_ip (filter (\<lambda>ip. ip \<noteq> []) (map strip lines))"

text \<open>A stripped line on which the validity test itself raises an exception.\<close>

definition test_raises :: "string \<Rightarrow> bool" where
  "test_raises ip \<longleftrightarrow>
     length (split_dot ip) = 4
     \<and> (case all_parts_ok (split_dot ip) of Inl e \<Rightarrow> True | Inr ok \<Rightarrow> False)"

text \<open>
  The shape of the Range Filler's output for the input \<open>xs\<close>: a block is one input
  address as it was read, or the addresses of all integers from the value of one input
  address up to the value of a later, larger one.
\<close>

definition single_block :: "string list \<Rightarrow> string list \<Rightarrow> bool" where
  "single_block xs b \<longleftrightarrow> (\<exists>s\<in>set xs. b = [s])"

definition expanded_block :: "string list \<Rightarrow> string list \<Rightarrow> bool" where
  "expanded_block xs b \<longleftrightarrow>
     (\<exists>s\<in>set xs. \<exists>e\<in>set xs. ip_val s < ip_val e
        \<and> b = map int_to_ip [ip_val s..ip_val e]
        \<and> map ip_val b = [ip_val s..ip_val e])"

text \<open>
  What holds of the loop variables of \<open>process_ips\<close> between iterations: the end of the
  open segment is the previous address, both ends have values, and the segment either is
  one address or runs upwards. \<open>segment_of\<close> is what closing the segment appends.
\<close>

definition state_ok :: "fill_state \<Rightarrow> bool" where
  "state_ok st \<longleftrightarrow>
     previous_ip st = end_ip st \<and> has_value (start_ip st) \<and> has_value (end_ip st)
     \<and> previous_int st = ip_val (end_ip st)
     \<and> (start_ip st = end_ip st \<or> ip_val (start_ip st) < ip_val (end_ip st))"

definition segment_of :: "fill_state \<Rightarrow> string list" where
  "segment_of st =
     (if start_ip st = end_ip st then [start_ip st]
      else map int_to_ip [ip_val (start_ip st)..ip_val (end_ip st)])"

text \<open>
  An output that is a sequence of such blocks, and the invariant of the loop of
  \<open>process_ips\<close> on a sorted list \<open>xs\<close> of valid addresses: what has been emitted is
  sorted by value, lies below the open segment, and is a sequence of blocks.
\<close>

definition output_blocks :: "string list \<Rightarrow> string list \<Rightarrow> bool" where
  "output_blocks xs out \<longleftrightarrow>
     (\<exists>bs. out = concat bs \<and> (\<forall>b\<in>set bs. single_block xs b \<or> expanded_block xs b))"

definition fill_inv :: "string list \<Rightarrow> fill_state \<Rightarrow> bool" where
  "fill_inv xs st \<longleftrightarrow>
     state_ok st \<and> valid_ip (start_ip st) \<and> valid_ip (end_ip st)
     \<and> start_ip st \<in> set xs \<and> end_ip st \<in> set xs
     \<and> list_all valid_ip (result st)
     \<and> sorted (map ip_val (result st))
     \<and> (\<forall>s\<in>set (result st). ip_val s \<le> ip_val (start_ip st))
     \<and> output_blocks xs (result st)"

text \<open>Text made of ASCII characters only.\<close>

definition ascii_text :: "string \<Rightarrow> bool" where
  "ascii_text s \<longleftrightarrow> list_all (\<lambda>c. (of_char c :: nat) < 128) s"

section \<open>Splitting and joining\<close>

lemma split_dot_not_Nil: "split_dot s \<noteq> []"
  by (induction s) (auto split: list.splits)

lemma split_dot_no_dot: "CHR ''.'' \<notin> set p \<Longrightarrow> split_dot p = [p]"
  by (induction p) auto

lemma split_dot_append_dot:
  "CHR ''.'' \<notin> set p \<Longrightarrow> split_dot (p @ CHR ''.'' # s) = p # split_dot s"
  by (induction p) auto

lemma join_dot_Cons: "ps \<noteq> [] \<Longrightarrow> join_dot (p # ps) = p @ CHR ''.'' # join_dot ps"
  by (cases ps) auto

lemma join_split_dot: "join_dot (split_dot s) = s"
proof (induction s)
  case Nil
  show ?case by simp
next
  case (Cons c cs)
  obtain p ps where ps: "split_dot cs = p # ps"
    using split_dot_not_Nil [of cs] by (cases "split_dot cs") auto
  show ?case
  proof (cases "c = CHR ''.''")
    case True
    then show ?thesis using Cons ps by simp
  next
    case False
    then show ?thesis using Cons ps by (cases ps) auto
  qed
qed

lemma split_join_dot:
  "ps \<noteq> [] \<Longrightarrow> \<forall>p\<in>set ps. CHR ''.'' \<notin> set p \<Longrightarrow> split_dot (join_dot ps) = ps"
proof (induction ps)
  case Nil
  then show ?case by simp
next
  case (Cons p ps)
  show ?case
  proof (cases "ps = []")
    case True
    then show ?thesis using Cons.prems by (simp add: split_dot_no_dot)
  next
    case False
    then show ?thesis using Cons by (simp add: join_dot_Cons split_dot_append_dot)
  qed
qed

lemma split_dot_parts_no_dot: "p \<in> set (split_dot s) \<Longrightarrow> CHR ''.'' \<notin> set p"
  by (induction s arbitrary: p) (auto split: if_splits list.splits)


lemma parse_digits_ascii:
  "list_all is_ascii_digit p \<Longrightarrow>
   parse_digits acc p = Some (foldl (\<lambda>a c. a * 10 + digit_val c) acc p)"
  by (induction acc p rule: parse_digits.induct) auto

lemma ascii_digit_not_space: "is_ascii_digit c \<Longrightarrow> \<not> int_space_char c"
  by (auto simp: is_ascii_digit_def int_space_char_def Let_def)

lemma ascii_digit_not_sign: "is_ascii_digit c \<Longrightarrow> c \<noteq> CHR ''-'' \<and> c \<noteq> CHR ''+'' \<and> c \<noteq> CHR ''.'' \<and> c \<noteq> CHR ''_''"
  by (auto simp: is_ascii_digit_def)

lemma dropWhile_hd: "p \<noteq> [] \<Longrightarrow> \<not> P (hd p) \<Longrightarrow> dropWhile P p = p"
  by (cases p) auto

lemma trim_id:
  assumes "p \<noteq> []" "\<not> P (hd p)" "\<not> P (last p)"
  shows "rev (dropWhile P (rev (dropWhile P p))) = p"
proof -
  have "dropWhile P p = p" using assms by (simp add: dropWhile_hd)
  moreover have "dropWhile P (rev p) = rev p"
    using assms by (intro dropWhile_hd) (auto simp: hd_rev)
  ultimately show ?thesis by simp
qed

lemma py_int_ascii_digits:
  assumes "p \<noteq> []" "list_all is_ascii_digit p"
  shows "py_int p = Inr (int (dec_value p))"
proof -
  obtain c cs where p: "p = c # cs" using assms(1) by (cases p) auto
  have hd: "is_ascii_digit (hd p)" and lst: "is_ascii_digit (last p)"
    using assms by (auto simp: list_all_iff)
  have trim: "rev (dropWhile int_space_char (rev (dropWhile int_space_char p))) = p"
    using assms(1) hd lst by (intro trim_id) (auto dest: ascii_digit_not_space)
  have c: "is_ascii_digit c" using hd p by simp
  have "parse_number p = Some (dec_value p)"
    using assms(2) c by (simp add: parse_number_def p dec_value_def parse_digits_ascii)
  then show ?thesis
    using trim c ascii_digit_not_sign [of c] by (simp add: py_int_def p)
qed

section \<open>Decimal numerals and octets\<close>

lemma digit_char_ascii: "d < 10 \<Longrightarrow> is_ascii_digit (digit_char d)"
  by (simp add: digit_char_def is_ascii_digit_def)

lemma digit_val_digit_char: "d < 10 \<Longrightarrow> digit_val (digit_char d) = d"
  by (simp add: digit_char_def digit_val_def)

lemma digit_char_digit_val: "is_ascii_digit c \<Longrightarrow> digit_char (digit_val c) = c"
  by (simp add: digit_char_def digit_val_def is_ascii_digit_def)

lemma py_str_nat_not_Nil: "py_str_nat n \<noteq> []"
  by (subst py_str_nat.simps) simp

lemma py_str_nat_digits: "list_all is_ascii_digit (py_str_nat n)"
proof (induction n rule: py_str_nat.induct)
  case (1 n)
  then show ?case
    by (subst py_str_nat.simps) (simp add: digit_char_ascii)
qed

lemma dec_value_snoc: "dec_value (p @ [c]) = dec_value p * 10 + digit_val c"
  by (simp add: dec_value_def)

lemma dec_value_py_str_nat: "dec_value (py_str_nat n) = n"
proof (induction n rule: py_str_nat.induct)
  case (1 n)
  show ?case
  proof (cases "n < 10")
    case True
    then show ?thesis
      by (subst py_str_nat.simps) (simp add: dec_value_def digit_val_digit_char)
  next
    case False
    then show ?thesis using 1
      by (subst py_str_nat.simps) (simp add: dec_value_snoc digit_val_digit_char)
  qed
qed

lemma and_255: "(y::int) AND 255 = y mod 256"
proof -
  have "y AND 255 = y AND mask 8" by (simp add: mask_eq_exp_minus_1)
  also have "\<dots> = take_bit 8 y" by (simp add: take_bit_eq_mask)
  also have "\<dots> = y mod 256" by (simp add: take_bit_eq_mod)
  finally show ?thesis .
qed

lemma octets_sum:
  fixes x :: int
  shows "push_bit 24 (drop_bit 24 x AND 255) + push_bit 16 (drop_bit 16 x AND 255)
         + push_bit 8 (drop_bit 8 x AND 255) + (x AND 255) = x mod 2 ^ 32"
proof -
  have a: "x mod 4294967296 = 16777216 * (x div 16777216 mod 256) + x mod 16777216"
    using zmod_zmult2_eq [of 256 x 16777216] by simp
  have b: "x mod 16777216 = 65536 * (x div 65536 mod 256) + x mod 65536"
    using zmod_zmult2_eq [of 256 x 65536] by simp
  have c: "x mod 65536 = 256 * (x div 256 mod 256) + x mod 256"
    using zmod_zmult2_eq [of 256 x 256] by simp
  have "x mod 4294967296 = 16777216 * (x div 16777216 mod 256) + 65536 * (x div 65536 mod 256)
     + 256 * (x div 256 mod 256) + x mod 256"
    by (simp only: a b c add.assoc)
  moreover have "(2::int) ^ 32 = 4294967296" "(2::int) ^ 24 = 16777216" "(2::int) ^ 16 = 65536" "(2::int) ^ 8 = 256" by simp_all
  ultimately show ?thesis
    unfolding and_255 push_bit_eq_mult drop_bit_eq_div by (simp only: mult.commute)
qed

lemma octets_of_sum:
  fixes a b c d :: int
  assumes "0 \<le> a" "a \<le> 255" "0 \<le> b" "b \<le> 255" "0 \<le> c" "c \<le> 255" "0 \<le> d" "d \<le> 255"
    and vdef: "v = push_bit 24 a + push_bit 16 b + push_bit 8 c + d"
  shows "drop_bit 24 v AND 255 = a" "drop_bit 16 v AND 255 = b"
        "drop_bit 8 v AND 255 = c" "v AND 255 = d" "0 \<le> v" "v < 2 ^ 32"
proof -
  have v: "v = a * 16777216 + b * 65536 + c * 256 + d"
    by (simp add: vdef push_bit_eq_mult)
  have "v div 16777216 = a"
    by (rule int_div_pos_eq [where r = "b * 65536 + c * 256 + d"]) (use assms(1-8) v in auto)
  moreover have "a mod 256 = a"
    by (rule int_mod_pos_eq [where q = 0]) (use assms(1-8) in auto)
  ultimately show "drop_bit 24 v AND 255 = a"
    by (simp add: and_255 drop_bit_eq_div)
  have "v div 65536 = a * 256 + b"
    by (rule int_div_pos_eq [where r = "c * 256 + d"]) (use assms(1-8) v in auto)
  moreover have "(a * 256 + b) mod 256 = b"
    by (rule int_mod_pos_eq [where q = a]) (use assms(1-8) in auto)
  ultimately show "drop_bit 16 v AND 255 = b"
    by (simp add: and_255 drop_bit_eq_div)
  have "v div 256 = a * 65536 + b * 256 + c"
    by (rule int_div_pos_eq [where r = d]) (use assms(1-8) v in auto)
  moreover have "(a * 65536 + b * 256 + c) mod 256 = c"
    by (rule int_mod_pos_eq [where q = "a * 256 + b"]) (use assms(1-8) in auto)
  ultimately show "drop_bit 8 v AND 255 = c"
    by (simp add: and_255 drop_bit_eq_div)
  have "v mod 256 = d"
    by (rule int_mod_pos_eq [where q = "a * 65536 + b * 256 + c"]) (use assms(1-8) v in auto)
  then show "v AND 255 = d" by (simp add: and_255)
  show "0 \<le> v" using assms(1-8) v by simp
  show "v < 2 ^ 32" using assms(1-8) v by simp
qed

section \<open>Printing an integer and reading it back\<close>

lemma and_255_bounds: "0 \<le> (y::int) AND 255" "(y::int) AND 255 \<le> 255"
  by (simp_all add: and_255)

lemma py_str_octet: "py_str (y AND 255) = py_str_nat (nat (y AND 255))"
  using and_255_bounds(1) [of y] by (simp add: py_str_def)

lemma py_str_nat_no_dot: "CHR ''.'' \<notin> set (py_str_nat n)"
  using py_str_nat_digits [of n] ascii_digit_not_sign by (auto simp: list_all_iff)

lemma py_int_py_str_nat: "py_int (py_str_nat n) = Inr (int n)"
  by (simp add: py_int_ascii_digits py_str_nat_not_Nil py_str_nat_digits dec_value_py_str_nat)

lemma split_int_to_ip:
  "split_dot (int_to_ip x) =
     [py_str_nat (nat (drop_bit 24 x AND 255)), py_str_nat (nat (drop_bit 16 x AND 255)),
      py_str_nat (nat (drop_bit 8 x AND 255)), py_str_nat (nat (x AND 255))]"
  by (simp add: int_to_ip_def py_str_octet split_dot_append_dot split_dot_no_dot py_str_nat_no_dot)

lemma ip_to_int_int_to_ip_mod: "ip_to_int (int_to_ip x) = Inr (x mod 2 ^ 32)"
  using octets_sum [of x]
  by (simp add: ip_to_int_def split_int_to_ip py_int_py_str_nat and_255_bounds)

lemma ip_to_int_int_to_ip: "0 \<le> x \<Longrightarrow> x < 2 ^ 32 \<Longrightarrow> ip_to_int (int_to_ip x) = Inr x"
  by (simp add: ip_to_int_int_to_ip_mod)

section \<open>Valid and canonical addresses\<close>

lemma isdigit_char_not_space: "isdigit_char c \<Longrightarrow> \<not> int_space_char c"
  by (auto simp: isdigit_char_def is_ascii_digit_def int_space_char_def Let_def)

lemma isdigit_char_not_sign:
  "isdigit_char c \<Longrightarrow> c \<noteq> CHR ''-'' \<and> c \<noteq> CHR ''+'' \<and> c \<noteq> CHR ''_''"
  by (auto simp: isdigit_char_def is_ascii_digit_def)

lemma parse_digits_non_ascii:
  "list_all isdigit_char p \<Longrightarrow> \<not> list_all is_ascii_digit p \<Longrightarrow> parse_digits acc p = None"
  by (induction acc p rule: parse_digits.induct) (auto dest: isdigit_char_not_sign)

lemma py_int_isdigit:
  assumes "isdigit p"
  shows "py_int p = (if list_all is_ascii_digit p then Inr (int (dec_value p)) else Inl ValueError)"
proof (cases "list_all is_ascii_digit p")
  case True
  then show ?thesis using assms by (simp add: py_int_ascii_digits isdigit_def)
next
  case False
  obtain c cs where p: "p = c # cs" using assms by (cases p) (auto simp: isdigit_def)
  have all: "list_all isdigit_char p" using assms by (simp add: isdigit_def)
  then have hd: "isdigit_char (hd p)" and lst: "isdigit_char (last p)"
    using p by (auto simp: list_all_iff)
  have trim: "rev (dropWhile int_space_char (rev (dropWhile int_space_char p))) = p"
    using p hd lst by (intro trim_id) (auto dest: isdigit_char_not_space)
  have c: "isdigit_char c" using hd p by simp
  have "parse_number p = None"
  proof (cases "is_ascii_digit c")
    case True
    then have "\<not> list_all is_ascii_digit cs" using False p by simp
    moreover have "list_all isdigit_char cs" using all p by simp
    ultimately show ?thesis using True by (simp add: parse_number_def p parse_digits_non_ascii)
  next
    case False
    then show ?thesis by (simp add: parse_number_def p)
  qed
  then show ?thesis
    using trim c isdigit_char_not_sign [of c] False by (simp add: py_int_def p)
qed

lemma ascii_digits_isdigit: "p \<noteq> [] \<Longrightarrow> list_all is_ascii_digit p \<Longrightarrow> isdigit p"
  by (auto simp: isdigit_def isdigit_char_def list_all_iff)

lemma octet_part_iff:
  "octet_part p \<longleftrightarrow> p \<noteq> [] \<and> list_all is_ascii_digit p \<and> dec_value p \<le> 255"
proof (cases "isdigit p")
  case True
  then show ?thesis by (auto simp: octet_part_def py_int_isdigit isdigit_def)
next
  case False
  then show ?thesis using ascii_digits_isdigit [of p] by (auto simp: octet_part_def)
qed

lemma octet_part_py_int:
  "octet_part p \<Longrightarrow> py_int p = Inr (int (dec_value p))"
  by (simp add: octet_part_iff py_int_ascii_digits)

lemma length_4_conv: "length xs = 4 \<longleftrightarrow> (\<exists>a b c d. xs = [a, b, c, d])"
  by (auto simp: numeral_eq_Suc length_Suc_conv)

lemma valid_ip_parts:
  assumes "valid_ip s"
  obtains a b c d where "split_dot s = [a, b, c, d]"
    "octet_part a" "octet_part b" "octet_part c" "octet_part d"
  using assms unfolding valid_ip_def length_4_conv by auto

lemma valid_ip_to_int:
  assumes "valid_ip s"
  shows "ip_to_int s = Inr (ip_val s)" "0 \<le> ip_val s" "ip_val s < 2 ^ 32"
proof -
  obtain a b c d where parts: "split_dot s = [a, b, c, d]"
    and oct: "octet_part a" "octet_part b" "octet_part c" "octet_part d"
    using assms by (rule valid_ip_parts)
  let ?v = "push_bit 24 (int (dec_value a)) + push_bit 16 (int (dec_value b))
            + push_bit 8 (int (dec_value c)) + int (dec_value d)"
  have eq: "ip_to_int s = Inr ?v"
    using parts oct by (simp add: ip_to_int_def octet_part_py_int)
  then show "ip_to_int s = Inr (ip_val s)" by (simp add: ip_val_def)
  have v: "ip_val s = ?v" using eq by (simp add: ip_val_def)
  have bounds: "0 \<le> int (dec_value a)" "int (dec_value a) \<le> 255"
    "0 \<le> int (dec_value b)" "int (dec_value b) \<le> 255"
    "0 \<le> int (dec_value c)" "int (dec_value c) \<le> 255"
    "0 \<le> int (dec_value d)" "int (dec_value d) \<le> 255"
    using oct by (simp_all add: octet_part_iff)
  show "0 \<le> ip_val s" using octets_of_sum(5) [OF bounds v] .
  show "ip_val s < 2 ^ 32" using octets_of_sum(6) [OF bounds v] .
qed

lemma valid_ip_octets:
  assumes "valid_ip s" "split_dot s = [a, b, c, d]"
  shows "drop_bit 24 (ip_val s) AND 255 = int (dec_value a)"
    "drop_bit 16 (ip_val s) AND 255 = int (dec_value b)"
    "drop_bit 8 (ip_val s) AND 255 = int (dec_value c)"
    "ip_val s AND 255 = int (dec_value d)"
proof -
  have oct: "octet_part a" "octet_part b" "octet_part c" "octet_part d"
    using assms by (simp_all add: valid_ip_def)
  let ?v = "push_bit 24 (int (dec_value a)) + push_bit 16 (int (dec_value b))
            + push_bit 8 (int (dec_value c)) + int (dec_value d)"
  have v: "ip_val s = ?v"
    using assms(2) oct by (simp add: ip_val_def ip_to_int_def octet_part_py_int)
  have bounds: "0 \<le> int (dec_value a)" "int (dec_value a) \<le> 255"
    "0 \<le> int (dec_value b)" "int (dec_value b) \<le> 255"
    "0 \<le> int (dec_value c)" "int (dec_value c) \<le> 255"
    "0 \<le> int (dec_value d)" "int (dec_value d) \<le> 255"
    using oct by (simp_all add: octet_part_iff)
  show "drop_bit 24 (ip_val s) AND 255 = int (dec_value a)"
    using octets_of_sum(1) [OF bounds v] .
  show "drop_bit 16 (ip_val s) AND 255 = int (dec_value b)"
    using octets_of_sum(2) [OF bounds v] .
  show "drop_bit 8 (ip_val s) AND 255 = int (dec_value c)"
    using octets_of_sum(3) [OF bounds v] .
  show "ip_val s AND 255 = int (dec_value d)"
    using octets_of_sum(4) [OF bounds v] .
qed

lemma digit_val_less_10: "is_ascii_digit c \<Longrightarrow> digit_val c < 10"
  by (auto simp: is_ascii_digit_def digit_val_def)

lemma digit_char_0: "digit_char 0 = CHR ''0''"
  using digit_char_digit_val [of "CHR ''0''"] by (simp add: is_ascii_digit_def digit_val_def)

lemma py_str_nat_zero_iff: "py_str_nat n = ''0'' \<longleftrightarrow> n = 0"
proof
  assume "py_str_nat n = ''0''"
  then have "dec_value (py_str_nat n) = dec_value ''0''" by (rule arg_cong)
  moreover have "dec_value ''0'' = 0" by (simp add: dec_value_def digit_val_def)
  ultimately show "n = 0" by (simp only: dec_value_py_str_nat)
next
  assume "n = 0"
  then show "py_str_nat n = ''0''"
    by (subst py_str_nat.simps) (simp add: digit_char_0)
qed

lemma digit_char_zero_iff: "d < 10 \<Longrightarrow> digit_char d = CHR ''0'' \<longleftrightarrow> d = 0"
proof
  assume "d < 10" "digit_char d = CHR ''0''"
  then have "digit_val (digit_char d) = digit_val CHR ''0''" by simp
  then show "d = 0" using \<open>d < 10\<close> by (simp add: digit_val_digit_char) (simp add: digit_val_def)
next
  assume "d = 0"
  then show "digit_char d = CHR ''0''" by (simp add: digit_char_0)
qed

lemma hd_py_str_nat: "n \<noteq> 0 \<Longrightarrow> hd (py_str_nat n) \<noteq> CHR ''0''"
proof (induction n rule: py_str_nat.induct)
  case (1 n)
  show ?case
  proof (cases "n < 10")
    case True
    then show ?thesis using "1.prems"
      by (subst py_str_nat.simps) (simp add: digit_char_zero_iff)
  next
    case False
    then have "n div 10 \<noteq> 0" by simp
    then have "hd (py_str_nat (n div 10)) \<noteq> CHR ''0''" using 1 False by simp
    then show ?thesis using False
      by (subst py_str_nat.simps) (simp add: py_str_nat_not_Nil)
  qed
qed

lemma py_str_nat_canonical: "canonical_part (py_str_nat n)"
  using hd_py_str_nat [of n] py_str_nat_zero_iff [of n]
  by (auto simp: canonical_part_def py_str_nat_not_Nil py_str_nat_digits)

lemma canonical_roundtrip: "canonical_part p \<Longrightarrow> py_str_nat (dec_value p) = p"
proof (induction p rule: rev_induct)
  case Nil
  then show ?case by (simp add: canonical_part_def)
next
  case (snoc c q)
  have c: "is_ascii_digit c" using snoc.prems by (simp add: canonical_part_def)
  show ?case
  proof (cases "q = []")
    case True
    then have "dec_value (q @ [c]) = digit_val c" by (simp add: dec_value_def)
    moreover have "py_str_nat (digit_val c) = [digit_char (digit_val c)]"
      using digit_val_less_10 [OF c] by (subst py_str_nat.simps) simp
    ultimately show ?thesis using True c by (simp add: digit_char_digit_val)
  next
    case False
    then have hd: "hd q \<noteq> CHR ''0''" using snoc.prems by (auto simp: canonical_part_def)
    then have q: "canonical_part q" using snoc.prems False by (simp add: canonical_part_def)
    then have ih: "py_str_nat (dec_value q) = q" by (rule snoc.IH)
    have "dec_value q \<noteq> 0"
    proof
      assume "dec_value q = 0"
      then have "q = ''0''" using ih py_str_nat_zero_iff [of 0] by simp
      then show False using hd by simp
    qed
    then have big: "\<not> dec_value q * 10 + digit_val c < 10" by simp
    have dm: "(dec_value q * 10 + digit_val c) div 10 = dec_value q"
      "(dec_value q * 10 + digit_val c) mod 10 = digit_val c"
      using digit_val_less_10 [OF c] by simp_all
    have "py_str_nat (dec_value q * 10 + digit_val c)
          = py_str_nat (dec_value q) @ [digit_char (digit_val c)]"
      by (subst py_str_nat.simps) (simp only: big dm if_False)
    then show ?thesis
      by (simp add: dec_value_snoc ih digit_char_digit_val c)
  qed
qed

lemma int_to_ip_join:
  "int_to_ip x = join_dot
     [py_str_nat (nat (drop_bit 24 x AND 255)), py_str_nat (nat (drop_bit 16 x AND 255)),
      py_str_nat (nat (drop_bit 8 x AND 255)), py_str_nat (nat (x AND 255))]"
  by (simp add: int_to_ip_def py_str_octet)

lemma int_to_ip_canonical: "canonical_ip (int_to_ip x)"
  by (simp add: canonical_ip_def split_int_to_ip py_str_nat_canonical)

lemma octet_part_py_str_nat: "n \<le> 255 \<Longrightarrow> octet_part (py_str_nat n)"
  by (simp add: octet_part_iff py_str_nat_not_Nil py_str_nat_digits dec_value_py_str_nat)

lemma nat_and_255_le: "nat ((y::int) AND 255) \<le> 255"
  by (simp add: nat_le_iff and_255_bounds)

lemma int_to_ip_valid: "valid_ip (int_to_ip x)"
  by (simp add: valid_ip_def split_int_to_ip octet_part_py_str_nat nat_and_255_le)

lemma ip_val_int_to_ip: "0 \<le> x \<Longrightarrow> x < 2 ^ 32 \<Longrightarrow> ip_val (int_to_ip x) = x"
  by (simp add: ip_val_def ip_to_int_int_to_ip)

lemma int_to_ip_ip_val_parts:
  assumes "valid_ip s"
  shows "split_dot (int_to_ip (ip_val s)) = map (\<lambda>p. py_str_nat (dec_value p)) (split_dot s)"
proof -
  obtain a b c d where parts: "split_dot s = [a, b, c, d]"
    using assms by (rule valid_ip_parts)
  show ?thesis
    by (simp add: split_int_to_ip valid_ip_octets [OF assms parts] parts)
qed

lemma valid_canonical_roundtrip:
  assumes "valid_ip s" "canonical_ip s"
  shows "int_to_ip (ip_val s) = s"
proof -
  have "map (\<lambda>p. py_str_nat (dec_value p)) (split_dot s) = split_dot s"
    using assms(2) by (intro map_idI) (auto simp: canonical_ip_def list_all_iff canonical_roundtrip)
  then have "split_dot (int_to_ip (ip_val s)) = split_dot s"
    by (simp add: int_to_ip_ip_val_parts [OF assms(1)])
  then have "join_dot (split_dot (int_to_ip (ip_val s))) = join_dot (split_dot s)" by simp
  then show ?thesis by (simp only: join_split_dot)
qed

lemma roundtrip_iff_canonical:
  assumes "valid_ip s"
  shows "int_to_ip (ip_val s) = s \<longleftrightarrow> canonical_ip s"
proof
  assume "int_to_ip (ip_val s) = s"
  then show "canonical_ip s" using int_to_ip_canonical [of "ip_val s"] by simp
next
  assume "canonical_ip s"
  then show "int_to_ip (ip_val s) = s" using assms by (simp add: valid_canonical_roundtrip)
qed

section \<open>Sorting\<close>

lemma map_err_valid: "list_all valid_ip xs \<Longrightarrow> map_err ip_to_int xs = Inr (map ip_val xs)"
  by (induction xs) (simp_all add: valid_ip_to_int(1))

lemma map_err_int_to_ip:
  "\<forall>v\<in>set vs. 0 \<le> v \<and> v < 2 ^ 32 \<Longrightarrow> map_err ip_to_int (map int_to_ip vs) = Inr vs"
  by (induction vs) (simp_all add: ip_to_int_int_to_ip)

lemma sort_ips_valid:
  "list_all valid_ip xs \<Longrightarrow> sort_ips xs = Inr (map int_to_ip (sort (map ip_val xs)))"
  by (simp add: sort_ips_def map_err_valid)

lemma sort_ips_sorted_values:
  assumes "\<forall>v\<in>set vs. 0 \<le> v \<and> v < 2 ^ 32"
  shows "sort_ips (map int_to_ip (sort vs)) = Inr (map int_to_ip (sort vs))"
proof -
  have "map_err ip_to_int (map int_to_ip (sort vs)) = Inr (sort vs)"
    using assms by (intro map_err_int_to_ip) simp
  moreover have "sort (sort vs) = sort vs"
    by (rule sorted_sort_id) simp
  ultimately show ?thesis by (simp add: sort_ips_def)
qed

lemma valid_values_in_range:
  assumes "list_all valid_ip xs"
  shows "\<forall>v\<in>set (map ip_val xs). 0 \<le> v \<and> v < 2 ^ 32"
proof
  fix v
  assume "v \<in> set (map ip_val xs)"
  then obtain s where s: "s \<in> set xs" "v = ip_val s" by auto
  then have "valid_ip s" using assms by (simp add: list_all_iff)
  then show "0 \<le> v \<and> v < 2 ^ 32"
    using s(2) valid_ip_to_int(2,3) [of s] by blast
qed

lemma sort_ips_idem:
  assumes "list_all valid_ip xs"
  shows "\<exists>ys. sort_ips xs = Inr ys \<and> sort_ips ys = Inr ys"
proof -
  have "\<forall>v\<in>set (map ip_val xs). 0 \<le> v \<and> v < 2 ^ 32"
    using assms by (rule valid_values_in_range)
  then have "sort_ips (map int_to_ip (sort (map ip_val xs)))
             = Inr (map int_to_ip (sort (map ip_val xs)))"
    by (rule sort_ips_sorted_values)
  then show ?thesis using assms by (simp add: sort_ips_valid)
qed

lemma push_add_eq_or:
  fixes x y :: int
  assumes "0 \<le> y" "y < 2 ^ n"
  shows "push_bit n x + y = push_bit n x OR y"
proof -
  have y: "take_bit n y = y" using assms by (simp add: take_bit_int_eq_self)
  have "push_bit n x AND take_bit n y = 0"
    by (rule bit_eqI) (auto simp: bit_and_iff bit_take_bit_iff bit_push_bit_iff)
  then show ?thesis using y by (simp add: disjunctive_add_eq_or)
qed

lemma octets_sum_eq_or:
  fixes a b c d :: int
  assumes "0 \<le> a" "a \<le> 255" "0 \<le> b" "b \<le> 255" "0 \<le> c" "c \<le> 255" "0 \<le> d" "d \<le> 255"
  shows "push_bit 24 a + push_bit 16 b + push_bit 8 c + d
         = push_bit 24 a OR push_bit 16 b OR push_bit 8 c OR d"
proof -
  have 1: "push_bit 8 a + b = push_bit 8 a OR b"
    using assms by (intro push_add_eq_or) simp_all
  have 2: "push_bit 8 (push_bit 8 a + b) + c = push_bit 8 (push_bit 8 a + b) OR c"
    using assms by (intro push_add_eq_or) simp_all
  have 3: "push_bit 8 (push_bit 8 (push_bit 8 a + b) + c) + d
           = push_bit 8 (push_bit 8 (push_bit 8 a + b) + c) OR d"
    using assms by (intro push_add_eq_or) simp_all
  have "push_bit 24 a + push_bit 16 b + push_bit 8 c + d
        = push_bit 8 (push_bit 8 (push_bit 8 a + b) + c) + d"
    by (simp add: push_bit_eq_mult)
  also have "\<dots> = push_bit 8 (push_bit 8 (push_bit 8 a OR b) OR c) OR d"
    using 1 2 3 by simp
  also have "\<dots> = push_bit 24 a OR push_bit 16 b OR push_bit 8 c OR d"
    by (simp add: push_bit_or push_bit_push_bit ac_simps)
  finally show ?thesis .
qed

section \<open>One step of the Range Filler\<close>

lemma has_value_ip_to_int: "has_value s \<Longrightarrow> ip_to_int s = Inr (ip_val s)"
  by (auto simp: has_value_def ip_val_def split: sum.splits)

lemma valid_has_value: "valid_ip s \<Longrightarrow> has_value s"
  by (simp add: has_value_def valid_ip_to_int(1))

lemma generate_ip_range_values:
  "has_value a \<Longrightarrow> has_value b \<Longrightarrow>
   generate_ip_range a b = Inr (map int_to_ip [ip_val a..ip_val b])"
  by (simp add: generate_ip_range_def has_value_ip_to_int)

lemma emit_segment_ok:
  "state_ok st \<Longrightarrow> emit_segment st = Inr (result st @ segment_of st)"
  by (auto simp: emit_segment_def segment_of_def state_ok_def generate_ip_range_values)

lemma process_step_extend:
  assumes "state_ok st" "has_value cur" "fillable (previous_ip st) cur"
  shows "process_step st cur =
     Inr (st\<lparr>end_ip := cur, previous_ip := cur, previous_int := ip_val cur\<rparr>)"
  using assms
  by (simp add: process_step_def has_value_ip_to_int fillable_def state_ok_def Let_def)

lemma process_step_close:
  assumes "state_ok st" "has_value cur" "\<not> fillable (previous_ip st) cur"
  shows "process_step st cur =
     Inr (st\<lparr>result := result st @ segment_of st, start_ip := cur, end_ip := cur,
             previous_ip := cur, previous_int := ip_val cur\<rparr>)"
  using assms
  by (auto simp: process_step_def has_value_ip_to_int fillable_def state_ok_def Let_def
      emit_segment_ok)

lemma fillable_distinct: "fillable p c \<Longrightarrow> p \<noteq> c \<and> ip_val p < ip_val c"
  by (auto simp: fillable_def)

lemma state_ok_extend:
  assumes "state_ok st" "has_value cur" "fillable (previous_ip st) cur"
  shows "state_ok (st\<lparr>end_ip := cur, previous_ip := cur, previous_int := ip_val cur\<rparr>)"
  using assms fillable_distinct [of "previous_ip st" cur]
  by (auto simp: state_ok_def)

lemma state_ok_close:
  assumes "has_value cur"
  shows "state_ok (st\<lparr>result := r, start_ip := cur, end_ip := cur,
             previous_ip := cur, previous_int := ip_val cur\<rparr>)"
  using assms by (simp add: state_ok_def)

lemma state_ok_init:
  "has_value first \<Longrightarrow>
   state_ok \<lparr>result = [], previous_ip = first, previous_int = ip_val first,
             start_ip = first, end_ip = first\<rparr>"
  by (simp add: state_ok_def)

lemma process_ips_pair:
  assumes "has_value a" "has_value b"
  shows "process_ips [a, b] =
     Inr (if fillable a b then map int_to_ip [ip_val a..ip_val b] else [a, b])"
proof -
  let ?st = "\<lparr>result = [], previous_ip = a, previous_int = ip_val a,
             start_ip = a, end_ip = a\<rparr>"
  have ok: "state_ok ?st" using assms(1) by (rule state_ok_init)
  show ?thesis
  proof (cases "fillable a b")
    case True
    then have "process_step ?st b =
        Inr (?st\<lparr>end_ip := b, previous_ip := b, previous_int := ip_val b\<rparr>)"
      using ok assms(2) by (intro process_step_extend) simp_all
    moreover have "state_ok (?st\<lparr>end_ip := b, previous_ip := b, previous_int := ip_val b\<rparr>)"
      using ok assms(2) True by (intro state_ok_extend) simp_all
    ultimately show ?thesis
      using True assms fillable_distinct [OF True]
      by (simp add: process_ips_def has_value_ip_to_int emit_segment_ok segment_of_def)
  next
    case False
    then have "process_step ?st b =
        Inr (?st\<lparr>result := result ?st @ segment_of ?st, start_ip := b, end_ip := b,
             previous_ip := b, previous_int := ip_val b\<rparr>)"
      using ok assms(2) by (intro process_step_close) simp_all
    moreover have "state_ok \<lparr>result = [a], previous_ip = b, previous_int = ip_val b,
             start_ip = b, end_ip = b\<rparr>"
      using assms(2) by (simp add: state_ok_def)
    ultimately show ?thesis
      using False assms
      by (simp add: process_ips_def has_value_ip_to_int emit_segment_ok segment_of_def)
  qed
qed

lemma process_loop_replicate:
  "has_value s \<Longrightarrow>
   process_loop \<lparr>result = r, previous_ip = s, previous_int = ip_val s,
                 start_ip = s, end_ip = s\<rparr> (replicate n s)
   = Inr \<lparr>result = r @ replicate n s, previous_ip = s, previous_int = ip_val s,
          start_ip = s, end_ip = s\<rparr>"
proof (induction n arbitrary: r)
  case 0
  show ?case by simp
next
  case (Suc n)
  let ?st = "\<lparr>result = r, previous_ip = s, previous_int = ip_val s,
               start_ip = s, end_ip = s\<rparr>"
  have ok: "state_ok ?st" using Suc.prems by (simp add: state_ok_def)
  have nf: "\<not> fillable (previous_ip ?st) s" by (simp add: fillable_def)
  have "process_step ?st s =
      Inr (?st\<lparr>result := result ?st @ segment_of ?st, start_ip := s, end_ip := s,
             previous_ip := s, previous_int := ip_val s\<rparr>)"
    using ok Suc.prems nf by (rule process_step_close)
  then have "process_step ?st s = Inr \<lparr>result = r @ [s], previous_ip = s,
      previous_int = ip_val s, start_ip = s, end_ip = s\<rparr>"
    by (simp add: segment_of_def)
  then show ?case using Suc.IH [OF Suc.prems, of "r @ [s]"]
    by (simp add: replicate_app_Cons_same)
qed

lemma process_ips_replicate:
  assumes "has_value s"
  shows "process_ips (replicate n s) = Inr (replicate n s)"
proof (cases n)
  case 0
  then show ?thesis by (simp add: process_ips_def)
next
  case (Suc m)
  have "state_ok \<lparr>result = [] @ replicate m s, previous_ip = s, previous_int = ip_val s,
          start_ip = s, end_ip = s\<rparr>"
    using assms by (simp add: state_ok_def)
  then show ?thesis
    using Suc assms process_loop_replicate [OF assms, of "[]" m]
    by (simp add: process_ips_def has_value_ip_to_int emit_segment_ok segment_of_def
        replicate_append_same)
qed

section \<open>The loop of the Range Filler\<close>

lemma output_blocks_Nil: "output_blocks xs []"
  unfolding output_blocks_def by (rule exI [of _ "[]"]) simp

lemma output_blocks_append:
  assumes "output_blocks xs out" "single_block xs b \<or> expanded_block xs b"
  shows "output_blocks xs (out @ b)"
proof -
  obtain bs where bs: "out = concat bs" "\<forall>b\<in>set bs. single_block xs b \<or> expanded_block xs b"
    using assms(1) unfolding output_blocks_def by blast
  have "out @ b = concat (bs @ [b])" using bs(1) by simp
  moreover have "\<forall>c\<in>set (bs @ [b]). single_block xs c \<or> expanded_block xs c"
    using bs(2) assms(2) by auto
  ultimately show ?thesis unfolding output_blocks_def by blast
qed

lemma ip_val_range:
  assumes "valid_ip a" "valid_ip b"
  shows "map ip_val (map int_to_ip [ip_val a..ip_val b]) = [ip_val a..ip_val b]"
proof -
  have "ip_val (int_to_ip k) = k" if "k \<in> set [ip_val a..ip_val b]" for k
  proof -
    have "0 \<le> k" using that valid_ip_to_int(2) [OF assms(1)] by simp
    moreover have "k < 2 ^ 32" using that valid_ip_to_int(3) [OF assms(2)] by simp
    ultimately show ?thesis by (rule ip_val_int_to_ip)
  qed
  then have "map (\<lambda>k. ip_val (int_to_ip k)) [ip_val a..ip_val b] = [ip_val a..ip_val b]"
    by (intro map_idI) 
  then show ?thesis by (simp add: comp_def)
qed

lemma segment_values:
  assumes "state_ok st" "valid_ip (start_ip st)" "valid_ip (end_ip st)"
  shows "map ip_val (segment_of st) =
     (if start_ip st = end_ip st then [ip_val (start_ip st)]
      else [ip_val (start_ip st)..ip_val (end_ip st)])"
  using assms ip_val_range [of "start_ip st" "end_ip st"] by (simp add: segment_of_def)

lemma segment_sorted:
  assumes "state_ok st" "valid_ip (start_ip st)" "valid_ip (end_ip st)"
  shows "sorted (map ip_val (segment_of st))"
  by (simp add: segment_values [OF assms])

lemma segment_bounds:
  assumes "state_ok st" "valid_ip (start_ip st)" "valid_ip (end_ip st)"
    and "s \<in> set (segment_of st)"
  shows "ip_val (start_ip st) \<le> ip_val s \<and> ip_val s \<le> ip_val (end_ip st)"
proof -
  have "ip_val s \<in> set (map ip_val (segment_of st))" using assms(4) by simp
  then show ?thesis
    unfolding segment_values [OF assms(1-3)] by (auto split: if_splits)
qed

lemma segment_valid:
  assumes "valid_ip (start_ip st)"
  shows "list_all valid_ip (segment_of st)"
  using assms by (auto simp: segment_of_def list_all_iff int_to_ip_valid)

lemma segment_block:
  assumes "state_ok st" "valid_ip (start_ip st)" "valid_ip (end_ip st)"
    and "start_ip st \<in> set xs" "end_ip st \<in> set xs"
  shows "single_block xs (segment_of st) \<or> expanded_block xs (segment_of st)"
proof (cases "start_ip st = end_ip st")
  case True
  then show ?thesis using assms(4) by (simp add: segment_of_def single_block_def)
next
  case False
  then have lt: "ip_val (start_ip st) < ip_val (end_ip st)"
    using assms(1) by (simp add: state_ok_def)
  have "expanded_block xs (map int_to_ip [ip_val (start_ip st)..ip_val (end_ip st)])"
    unfolding expanded_block_def
    using assms(4,5) lt ip_val_range [OF assms(2,3)] by blast
  then show ?thesis using False by (simp add: segment_of_def)
qed

lemma fill_inv_init:
  assumes "valid_ip first" "first \<in> set xs"
  shows "fill_inv xs \<lparr>result = [], previous_ip = first, previous_int = ip_val first,
             start_ip = first, end_ip = first\<rparr>"
  using assms by (simp add: fill_inv_def state_ok_def valid_has_value output_blocks_Nil)

lemma fill_inv_closed:
  assumes inv: "fill_inv xs st"
  shows "list_all valid_ip (result st @ segment_of st)"
    and "sorted (map ip_val (result st @ segment_of st))"
    and "output_blocks xs (result st @ segment_of st)"
    and "\<forall>s\<in>set (result st @ segment_of st). ip_val s \<le> ip_val (end_ip st)"
proof -
  have ok: "state_ok st" and vs: "valid_ip (start_ip st)" and ve: "valid_ip (end_ip st)"
    using inv by (simp_all add: fill_inv_def)
  have le: "ip_val (start_ip st) \<le> ip_val (end_ip st)"
    using ok by (auto simp: state_ok_def)
  show "list_all valid_ip (result st @ segment_of st)"
    using inv segment_valid [OF vs] by (simp add: fill_inv_def)
  have below: "\<forall>s\<in>set (result st). ip_val s \<le> ip_val (start_ip st)"
    using inv by (simp add: fill_inv_def)
  have "\<forall>x\<in>set (map ip_val (result st)). \<forall>y\<in>set (map ip_val (segment_of st)). x \<le> y"
  proof (intro ballI)
    fix x y
    assume "x \<in> set (map ip_val (result st))" "y \<in> set (map ip_val (segment_of st))"
    then obtain s t where s: "s \<in> set (result st)" "x = ip_val s"
      and t: "t \<in> set (segment_of st)" "y = ip_val t" by auto
    have "x \<le> ip_val (start_ip st)" using s below by simp
    moreover have "ip_val (start_ip st) \<le> y"
      using segment_bounds [OF ok vs ve t(1)] t(2) by simp
    ultimately show "x \<le> y" by simp
  qed
  then show "sorted (map ip_val (result st @ segment_of st))"
    using inv segment_sorted [OF ok vs ve] by (simp add: fill_inv_def sorted_append)
  show "output_blocks xs (result st @ segment_of st)"
    using inv segment_block [OF ok vs ve] by (intro output_blocks_append) (simp_all add: fill_inv_def)
  show "\<forall>s\<in>set (result st @ segment_of st). ip_val s \<le> ip_val (end_ip st)"
    using below le segment_bounds [OF ok vs ve] by fastforce
qed

lemma fill_inv_step:
  assumes inv: "fill_inv xs st" and cur: "valid_ip cur" "cur \<in> set xs"
    and le: "ip_val (end_ip st) \<le> ip_val cur"
  shows "\<exists>st'. process_step st cur = Inr st' \<and> fill_inv xs st' \<and> end_ip st' = cur"
proof -
  have ok: "state_ok st" using inv by (simp add: fill_inv_def)
  have hv: "has_value cur" using cur(1) by (rule valid_has_value)
  show ?thesis
  proof (cases "fillable (previous_ip st) cur")
    case True
    let ?st' = "st\<lparr>end_ip := cur, previous_ip := cur, previous_int := ip_val cur\<rparr>"
    have "process_step st cur = Inr ?st'" using ok hv True by (rule process_step_extend)
    moreover have "state_ok ?st'" using ok hv True by (rule state_ok_extend)
    then have "fill_inv xs ?st'" using inv cur by (simp add: fill_inv_def)
    ultimately show ?thesis by simp
  next
    case False
    let ?st' = "st\<lparr>result := result st @ segment_of st, start_ip := cur, end_ip := cur,
             previous_ip := cur, previous_int := ip_val cur\<rparr>"
    have "process_step st cur = Inr ?st'" using ok hv False by (rule process_step_close)
    moreover have "state_ok ?st'" using hv by (simp add: state_ok_def)
    moreover have "\<forall>s\<in>set (result st @ segment_of st). ip_val s \<le> ip_val cur"
      using fill_inv_closed(4) [OF inv] le by fastforce
    ultimately have "fill_inv xs ?st'"
      using fill_inv_closed(1-3) [OF inv] cur by (simp add: fill_inv_def)
    moreover have "process_step st cur = Inr ?st'" using ok hv False by (rule process_step_close)
    ultimately show ?thesis by simp
  qed
qed

lemma fill_inv_loop:
  assumes "fill_inv xs st" "list_all valid_ip rest" "set rest \<subseteq> set xs"
    and "sorted (ip_val (end_ip st) # map ip_val rest)"
  shows "\<exists>st'. process_loop st rest = Inr st' \<and> fill_inv xs st'"
  using assms
proof (induction rest arbitrary: st)
  case Nil
  then show ?case by simp
next
  case (Cons cur rest)
  have "ip_val (end_ip st) \<le> ip_val cur" using Cons.prems(4) by simp
  then obtain st1 where st1: "process_step st cur = Inr st1" "fill_inv xs st1" "end_ip st1 = cur"
    using fill_inv_step [of xs st cur] Cons.prems by auto
  have "sorted (ip_val (end_ip st1) # map ip_val rest)"
    using Cons.prems(4) st1(3) by simp
  then obtain st' where "process_loop st1 rest = Inr st'" "fill_inv xs st'"
    using Cons.IH [of st1] st1(2) Cons.prems(2,3) by auto
  then show ?case using st1(1) by simp
qed

lemma process_ips_sorted_blocks:
  assumes "list_all valid_ip xs" "sorted (map ip_val xs)"
  shows "\<exists>out. process_ips xs = Inr out \<and> list_all valid_ip out
      \<and> sorted (map ip_val out) \<and> output_blocks xs out"
proof (cases xs)
  case Nil
  then show ?thesis by (simp add: process_ips_def output_blocks_Nil)
next
  case (Cons first rest)
  let ?st = "\<lparr>result = [], previous_ip = first, previous_int = ip_val first,
             start_ip = first, end_ip = first\<rparr>"
  have vf: "valid_ip first" using assms(1) Cons by simp
  have "fill_inv xs ?st" using vf Cons by (intro fill_inv_init) simp_all
  moreover have "list_all valid_ip rest" "set rest \<subseteq> set xs"
    using assms(1) Cons by auto
  moreover have "sorted (ip_val (end_ip ?st) # map ip_val rest)"
    using assms(2) Cons by simp
  ultimately obtain st' where st': "process_loop ?st rest = Inr st'" "fill_inv xs st'"
    using fill_inv_loop [of xs ?st rest] by blast
  have "emit_segment st' = Inr (result st' @ segment_of st')"
    using st'(2) by (simp add: fill_inv_def emit_segment_ok)
  then have "process_ips xs = Inr (result st' @ segment_of st')"
    using Cons st'(1) valid_ip_to_int(1) [OF vf] by (simp add: process_ips_def)
  then show ?thesis using fill_inv_closed(1-3) [OF st'(2)] by simp
qed

lemma upto_middle:
  fixes a p c e :: int
  assumes "a \<le> p" "p \<le> c" "c \<le> e"
  shows "[a..e] = [a..p - 1] @ [p..c] @ [c + 1..e]"
proof -
  have "[a..e] = [a..p - 1] @ [p..e]"
    using assms by (intro upto_split1) simp_all
  moreover have "[p..e] = [p..c] @ [c + 1..e]"
    using assms by (intro upto_split2) simp_all
  ultimately show ?thesis by simp
qed

lemma run_inside_range:
  fixes a p c e :: int
  assumes "a \<le> p" "p \<le> c" "c \<le> e"
  shows "\<exists>pre post. map f [a..e] = pre @ map f [p..c] @ post"
proof -
  have "map f [a..e] = map f [a..p - 1] @ map f [p..c] @ map f [c + 1..e]"
    using upto_middle [OF assms] by simp
  then show ?thesis by blast
qed

lemma state_ok_le: "state_ok st \<Longrightarrow> ip_val (start_ip st) \<le> ip_val (end_ip st)"
  by (auto simp: state_ok_def)

lemma fill_runs_loop:
  assumes "state_ok st" "\<forall>x\<in>set rest. has_value x"
  shows "\<exists>st'. process_loop st rest = Inr st' \<and> state_ok st'
     \<and> (\<exists>post. result st' @ segment_of st' = result st @ post)
     \<and> (start_ip st \<noteq> end_ip st \<longrightarrow>
          (\<exists>e post. ip_val (end_ip st) \<le> e
             \<and> result st' @ segment_of st'
                 = result st @ map int_to_ip [ip_val (start_ip st)..e] @ post))
     \<and> (\<forall>(p, c)\<in>set (zip (previous_ip st # rest) rest). fillable p c \<longrightarrow>
          (\<exists>pre post. result st' @ segment_of st'
                 = pre @ map int_to_ip [ip_val p..ip_val c] @ post))"
  using assms
proof (induction rest arbitrary: st)
  case Nil
  then show ?case by (auto simp: segment_of_def)
next
  case (Cons cur rest)
  have ok: "state_ok st" and hv: "has_value cur" and hrest: "\<forall>x\<in>set rest. has_value x"
    using Cons.prems by simp_all
  have prev: "previous_ip st = end_ip st" using ok by (simp add: state_ok_def)
  show ?case
  proof (cases "fillable (previous_ip st) cur")
    case True
    let ?st1 = "st\<lparr>end_ip := cur, previous_ip := cur, previous_int := ip_val cur\<rparr>"
    have step: "process_step st cur = Inr ?st1" using ok hv True by (rule process_step_extend)
    have ok1: "state_ok ?st1" using ok hv True by (rule state_ok_extend)
    have ne: "start_ip ?st1 \<noteq> end_ip ?st1"
      using ok True fillable_distinct [of "previous_ip st" cur] by (auto simp: state_ok_def)
    obtain st' where loop: "process_loop ?st1 rest = Inr st'" and ok': "state_ok st'"
      and pre: "\<exists>post. result st' @ segment_of st' = result ?st1 @ post"
      and pend: "start_ip ?st1 \<noteq> end_ip ?st1 \<longrightarrow>
          (\<exists>e post. ip_val (end_ip ?st1) \<le> e
             \<and> result st' @ segment_of st'
                 = result ?st1 @ map int_to_ip [ip_val (start_ip ?st1)..e] @ post)"
      and pairs: "\<forall>(p, c)\<in>set (zip (previous_ip ?st1 # rest) rest). fillable p c \<longrightarrow>
          (\<exists>pre post. result st' @ segment_of st'
                 = pre @ map int_to_ip [ip_val p..ip_val c] @ post)"
      using Cons.IH [OF ok1 hrest] by blast
    obtain e post where e: "ip_val cur \<le> e"
      and out: "result st' @ segment_of st'
                 = result st @ map int_to_ip [ip_val (start_ip st)..e] @ post"
      using pend ne by auto
    have lt: "ip_val (end_ip st) < ip_val cur"
      using fillable_distinct [OF True] prev by simp
    have "\<exists>pre post. result st' @ segment_of st'
                 = pre @ map int_to_ip [ip_val (previous_ip st)..ip_val cur] @ post"
    proof -
      obtain pre' post' where "map int_to_ip [ip_val (start_ip st)..e]
          = pre' @ map int_to_ip [ip_val (end_ip st)..ip_val cur] @ post'"
        using run_inside_range [of "ip_val (start_ip st)" "ip_val (end_ip st)" "ip_val cur" e
            int_to_ip] state_ok_le [OF ok] lt e by auto
      then have "result st' @ segment_of st'
          = (result st @ pre') @ map int_to_ip [ip_val (end_ip st)..ip_val cur] @ (post' @ post)"
        using out by simp
      then show ?thesis unfolding prev by blast
    qed
    moreover have "\<exists>e post. ip_val (end_ip st) \<le> e
             \<and> result st' @ segment_of st'
                 = result st @ map int_to_ip [ip_val (start_ip st)..e] @ post"
      using e lt out by (intro exI [of _ e] exI [of _ post]) simp
    moreover have "\<exists>post. result st' @ segment_of st' = result st @ post"
      using pre by simp
    ultimately show ?thesis
      using step loop ok' pairs by simp
  next
    case False
    let ?st1 = "st\<lparr>result := result st @ segment_of st, start_ip := cur, end_ip := cur,
             previous_ip := cur, previous_int := ip_val cur\<rparr>"
    have step: "process_step st cur = Inr ?st1" using ok hv False by (rule process_step_close)
    have ok1: "state_ok ?st1" using hv by (simp add: state_ok_def)
    obtain st' where loop: "process_loop ?st1 rest = Inr st'" and ok': "state_ok st'"
      and pre: "\<exists>post. result st' @ segment_of st' = result ?st1 @ post"
      and pairs: "\<forall>(p, c)\<in>set (zip (previous_ip ?st1 # rest) rest). fillable p c \<longrightarrow>
          (\<exists>pre post. result st' @ segment_of st'
                 = pre @ map int_to_ip [ip_val p..ip_val c] @ post)"
      using Cons.IH [OF ok1 hrest] by blast
    obtain post where out: "result st' @ segment_of st' = result st @ segment_of st @ post"
      using pre by auto
    have "\<exists>post. result st' @ segment_of st' = result st @ post"
      using out by simp
    moreover have "start_ip st \<noteq> end_ip st \<longrightarrow> (\<exists>e post. ip_val (end_ip st) \<le> e
             \<and> result st' @ segment_of st'
                 = result st @ map int_to_ip [ip_val (start_ip st)..e] @ post)"
    proof
      assume "start_ip st \<noteq> end_ip st"
      then have "result st' @ segment_of st'
          = result st @ map int_to_ip [ip_val (start_ip st)..ip_val (end_ip st)] @ post"
        using out by (simp add: segment_of_def)
      then show "\<exists>e post. ip_val (end_ip st) \<le> e
             \<and> result st' @ segment_of st'
                 = result st @ map int_to_ip [ip_val (start_ip st)..e] @ post"
        by (intro exI [of _ "ip_val (end_ip st)"] exI [of _ post]) simp
    qed
    ultimately show ?thesis
      using step loop ok' pairs False by simp
  qed
qed

lemma process_ips_fill_runs:
  assumes "\<forall>x\<in>set xs. has_value x"
  shows "\<exists>out. process_ips xs = Inr out
     \<and> (\<forall>(p, c)\<in>set (zip xs (tl xs)). fillable p c \<longrightarrow>
          (\<exists>pre post. out = pre @ map int_to_ip [ip_val p..ip_val c] @ post))"
proof (cases xs)
  case Nil
  then show ?thesis by (simp add: process_ips_def)
next
  case (Cons first rest)
  let ?st = "\<lparr>result = [], previous_ip = first, previous_int = ip_val first,
             start_ip = first, end_ip = first\<rparr>"
  have hf: "has_value first" and hrest: "\<forall>x\<in>set rest. has_value x"
    using assms Cons by simp_all
  have ok: "state_ok ?st" using hf by (rule state_ok_init)
  obtain st' where loop: "process_loop ?st rest = Inr st'" and ok': "state_ok st'"
    and pairs: "\<forall>(p, c)\<in>set (zip (previous_ip ?st # rest) rest). fillable p c \<longrightarrow>
          (\<exists>pre post. result st' @ segment_of st'
                 = pre @ map int_to_ip [ip_val p..ip_val c] @ post)"
    using fill_runs_loop [OF ok hrest] by blast
  have "process_ips xs = Inr (result st' @ segment_of st')"
    using Cons loop ok' hf by (simp add: process_ips_def has_value_ip_to_int emit_segment_ok)
  then show ?thesis using pairs Cons by simp
qed

section \<open>Duplicates in the Range Filler\<close>

lemma segment_values_upto:
  assumes "state_ok st" "valid_ip (start_ip st)" "valid_ip (end_ip st)"
  shows "map ip_val (segment_of st) = [ip_val (start_ip st)..ip_val (end_ip st)]"
  using segment_values [OF assms] by simp

lemma count_upto_extend:
  fixes a b c :: int
  assumes "a \<le> b" "b < c"
  shows "count_list [a..b] v + (if v = c then 1 else 0) \<le> count_list [a..c] v"
proof -
  have "[a..c] = [a..b] @ [b + 1..c]"
    using assms by (intro upto_split2) simp_all
  moreover have "c \<in> set [b + 1..c]" using assms by simp
  then have "count_list [b + 1..c] c \<noteq> 0" by (simp only: count_list_0_iff not_not)
  ultimately show ?thesis by auto
qed

lemma no_merge_loop:
  assumes "state_ok st" "valid_ip (start_ip st)" "valid_ip (end_ip st)"
    and "list_all valid_ip rest"
  shows "\<exists>st'. process_loop st rest = Inr st' \<and> state_ok st'
     \<and> (\<forall>v. count_list (map ip_val (result st @ segment_of st)) v
               + count_list (map ip_val rest) v
             \<le> count_list (map ip_val (result st' @ segment_of st')) v)"
  using assms
proof (induction rest arbitrary: st)
  case Nil
  then show ?case by simp
next
  case (Cons cur rest)
  have ok: "state_ok st" and vs: "valid_ip (start_ip st)" and ve: "valid_ip (end_ip st)"
    and vc: "valid_ip cur" and vrest: "list_all valid_ip rest"
    using Cons.prems by simp_all
  have hv: "has_value cur" using vc by (rule valid_has_value)
  have prev: "previous_ip st = end_ip st" using ok by (simp add: state_ok_def)
  show ?case
  proof (cases "fillable (previous_ip st) cur")
    case True
    let ?st1 = "st\<lparr>end_ip := cur, previous_ip := cur, previous_int := ip_val cur\<rparr>"
    have step: "process_step st cur = Inr ?st1" using ok hv True by (rule process_step_extend)
    have ok1: "state_ok ?st1" using ok hv True by (rule state_ok_extend)
    obtain st' where loop: "process_loop ?st1 rest = Inr st'" and ok': "state_ok st'"
      and ih: "\<forall>v. count_list (map ip_val (result ?st1 @ segment_of ?st1)) v
               + count_list (map ip_val rest) v
             \<le> count_list (map ip_val (result st' @ segment_of st')) v"
      using Cons.IH [OF ok1] vs vc vrest by auto
    have lt: "ip_val (end_ip st) < ip_val cur"
      using fillable_distinct [OF True] prev by simp
    have seg: "map ip_val (segment_of st) = [ip_val (start_ip st)..ip_val (end_ip st)]"
      using ok vs ve by (rule segment_values_upto)
    have seg1: "map ip_val (segment_of ?st1) = [ip_val (start_ip st)..ip_val cur]"
      using segment_values_upto [OF ok1] vs vc by simp
    have "count_list (map ip_val (result st @ segment_of st)) v
               + count_list (map ip_val (cur # rest)) v
             \<le> count_list (map ip_val (result st' @ segment_of st')) v" for v
    proof -
      have "count_list (map ip_val (segment_of st)) v + (if v = ip_val cur then 1 else 0)
            \<le> count_list (map ip_val (segment_of ?st1)) v"
        unfolding seg seg1 using state_ok_le [OF ok] lt by (rule count_upto_extend)
      then have "count_list (map ip_val (result st @ segment_of st)) v
               + count_list (map ip_val (cur # rest)) v
          \<le> count_list (map ip_val (result ?st1 @ segment_of ?st1)) v
               + count_list (map ip_val rest) v"
        by auto
      then show ?thesis using ih [rule_format, of v] by linarith
    qed
    then show ?thesis using step loop ok' by simp
  next
    case False
    let ?st1 = "st\<lparr>result := result st @ segment_of st, start_ip := cur, end_ip := cur,
             previous_ip := cur, previous_int := ip_val cur\<rparr>"
    have step: "process_step st cur = Inr ?st1" using ok hv False by (rule process_step_close)
    have ok1: "state_ok ?st1" using hv by (simp add: state_ok_def)
    obtain st' where loop: "process_loop ?st1 rest = Inr st'" and ok': "state_ok st'"
      and ih: "\<forall>v. count_list (map ip_val (result ?st1 @ segment_of ?st1)) v
               + count_list (map ip_val rest) v
             \<le> count_list (map ip_val (result st' @ segment_of st')) v"
      using Cons.IH [OF ok1] vc vrest by auto
    have "count_list (map ip_val (result st @ segment_of st)) v
               + count_list (map ip_val (cur # rest)) v
             \<le> count_list (map ip_val (result st' @ segment_of st')) v" for v
    proof -
      have "count_list (map ip_val (result st @ segment_of st)) v
               + count_list (map ip_val (cur # rest)) v
          = count_list (map ip_val (result ?st1 @ segment_of ?st1)) v
               + count_list (map ip_val rest) v"
        by (simp add: segment_of_def)
      then show ?thesis using ih [rule_format, of v] by linarith
    qed
    then show ?thesis using step loop ok' by simp
  qed
qed

lemma process_ips_no_merge:
  assumes "list_all valid_ip xs"
  shows "\<exists>out. process_ips xs = Inr out
     \<and> (\<forall>v. count_list (map ip_val xs) v \<le> count_list (map ip_val out) v)"
proof (cases xs)
  case Nil
  then show ?thesis by (simp add: process_ips_def)
next
  case (Cons first rest)
  let ?st = "\<lparr>result = [], previous_ip = first, previous_int = ip_val first,
             start_ip = first, end_ip = first\<rparr>"
  have vf: "valid_ip first" and vrest: "list_all valid_ip rest"
    using assms Cons by simp_all
  have ok: "state_ok ?st" using vf by (intro state_ok_init valid_has_value)
  obtain st' where loop: "process_loop ?st rest = Inr st'" and ok': "state_ok st'"
    and cnt: "\<forall>v. count_list (map ip_val (result ?st @ segment_of ?st)) v
               + count_list (map ip_val rest) v
             \<le> count_list (map ip_val (result st' @ segment_of st')) v"
    using no_merge_loop [OF ok _ _ vrest] vf by auto
  have "process_ips xs = Inr (result st' @ segment_of st')"
    using Cons loop ok' valid_ip_to_int(1) [OF vf] by (simp add: process_ips_def emit_segment_ok)
  moreover have "count_list (map ip_val xs) v
      \<le> count_list (map ip_val (result st' @ segment_of st')) v" for v
  proof -
    have "count_list (map ip_val xs) v
        = count_list (map ip_val (result ?st @ segment_of ?st)) v
          + count_list (map ip_val rest) v"
      using Cons by (simp add: segment_of_def)
    then show ?thesis using cnt [rule_format, of v] by linarith
  qed
  ultimately show ?thesis by blast
qed

section \<open>The Reader against its specification\<close>

lemma part_ok_octet: "part_ok p = Inr ok \<Longrightarrow> ok \<longleftrightarrow> octet_part p"
  by (auto simp: part_ok_def octet_part_def split: if_splits sum.splits)

lemma part_ok_raises: "part_ok p = Inl e \<Longrightarrow> \<not> octet_part p"
  by (auto simp: part_ok_def octet_part_def split: if_splits sum.splits)

lemma all_parts_ok_octets: "all_parts_ok ps = Inr ok \<Longrightarrow> ok \<longleftrightarrow> list_all octet_part ps"
proof (induction ps)
  case Nil
  then show ?case by simp
next
  case (Cons p ps)
  then show ?case
    by (auto split: sum.splits if_splits dest: part_ok_octet)
qed

lemma all_parts_ok_raises: "all_parts_ok ps = Inl e \<Longrightarrow> \<not> list_all octet_part ps"
proof (induction ps)
  case Nil
  then show ?case by simp
next
  case (Cons p ps)
  then show ?case
    by (auto split: sum.splits if_splits dest: part_ok_raises)
qed

lemma valid_ip_not_Nil: "valid_ip s \<Longrightarrow> s \<noteq> []"
  by (auto simp: valid_ip_def)

lemma reader_spec_Cons:
  "reader_spec (line # rest) =
     (if valid_ip (strip line) then strip line # reader_spec rest else reader_spec rest)"
  by (auto simp: reader_spec_def dest: valid_ip_not_Nil)

lemma read_loop_spec:
  "(case read_loop ips lines of
      Inl e \<Rightarrow> list_ex (\<lambda>l. test_raises (strip l)) lines
    | Inr out \<Rightarrow> \<not> list_ex (\<lambda>l. test_raises (strip l)) lines \<and> out = ips @ reader_spec lines)"
proof (induction lines arbitrary: ips)
  case Nil
  show ?case by (simp add: reader_spec_def)
next
  case (Cons line rest)
  let ?ip = "strip line"
  show ?case
  proof (cases "?ip \<noteq> [] \<and> length (split_dot ?ip) = 4")
    case False
    then have "\<not> test_raises ?ip" "\<not> valid_ip ?ip"
      by (auto simp: test_raises_def valid_ip_def)
    moreover have "read_loop ips (line # rest) = read_loop ips rest"
      using False by (auto simp: Let_def)
    ultimately show ?thesis
      using Cons.IH [of ips]
      by (auto simp: reader_spec_Cons simp del: read_loop.simps split: sum.splits)
  next
    case True
    show ?thesis
    proof (cases "all_parts_ok (split_dot ?ip)")
      case (Inl e)
      then have "test_raises ?ip" using True by (simp add: test_raises_def)
      moreover have "read_loop ips (line # rest) = Inl e"
        using True Inl by (simp add: Let_def)
      ultimately show ?thesis by (simp del: read_loop.simps)
    next
      case (Inr ok)
      then have nr: "\<not> test_raises ?ip" by (simp add: test_raises_def)
      have v: "valid_ip ?ip \<longleftrightarrow> ok"
        using True all_parts_ok_octets [OF Inr] by (simp add: valid_ip_def)
      show ?thesis
      proof (cases ok)
        case True
        have "read_loop ips (line # rest) = read_loop (ips @ [?ip]) rest"
          using \<open>?ip \<noteq> [] \<and> length (split_dot ?ip) = 4\<close> Inr True by (simp add: Let_def)
        then show ?thesis
          using Cons.IH [of "ips @ [?ip]"] nr v True
          by (auto simp: reader_spec_Cons simp del: read_loop.simps split: sum.splits)
      next
        case False
        have "read_loop ips (line # rest) = read_loop ips rest"
          using \<open>?ip \<noteq> [] \<and> length (split_dot ?ip) = 4\<close> Inr False by (simp add: Let_def)
        then show ?thesis
          using Cons.IH [of ips] nr v False
          by (auto simp: reader_spec_Cons simp del: read_loop.simps split: sum.splits)
      qed
    qed
  qed
qed

lemma read_ip_file_spec:
  "read_ip_file lines =
     (if list_ex (\<lambda>l. test_raises (strip l)) lines then Inl (SystemExit 1)
      else Inr (reader_spec lines))"
  using read_loop_spec [where ips = "[]" and lines = lines]
  by (auto simp: read_ip_file_def split: sum.splits)

lemma ascii_isdigit_char: "(of_char c :: nat) < 128 \<Longrightarrow> isdigit_char c \<Longrightarrow> is_ascii_digit c"
  by (auto simp: isdigit_char_def)

lemma ascii_part_ok: "ascii_text p \<Longrightarrow> \<exists>ok. part_ok p = Inr ok"
proof (cases "isdigit p")
  case False
  then have "part_ok p = Inr False" by (simp add: part_ok_def)
  then show ?thesis by blast
next
  case True
  assume "ascii_text p"
  then have "list_all is_ascii_digit p"
    using True by (auto simp: ascii_text_def isdigit_def list_all_iff intro: ascii_isdigit_char)
  then have "part_ok p = Inr (0 \<le> int (dec_value p) \<and> int (dec_value p) \<le> 255)"
    using True by (simp add: part_ok_def py_int_isdigit)
  then show ?thesis by blast
qed

lemma ascii_all_parts_ok: "list_all ascii_text ps \<Longrightarrow> \<exists>ok. all_parts_ok ps = Inr ok"
proof (induction ps)
  case Nil
  have "all_parts_ok [] = Inr True" by simp
  then show ?case by blast
next
  case (Cons p ps)
  then obtain b where b: "part_ok p = Inr b" using ascii_part_ok [of p] by auto
  obtain ok where ok: "all_parts_ok ps = Inr ok" using Cons by auto
  have "all_parts_ok (p # ps) = Inr (if b then ok else False)"
    using b ok by simp
  then show ?case by blast
qed

lemma split_dot_chars: "p \<in> set (split_dot s) \<Longrightarrow> set p \<subseteq> set s"
proof (induction s arbitrary: p)
  case Nil
  then show ?case by simp
next
  case (Cons c cs)
  obtain q qs where q: "split_dot cs = q # qs"
    using split_dot_not_Nil [of cs] by (cases "split_dot cs") auto
  have ih: "set r \<subseteq> set cs" if "r \<in> set (q # qs)" for r
    using Cons.IH [of r] that q by simp
  show ?case
  proof (cases "c = CHR ''.''")
    case True
    then have "p = [] \<or> p \<in> set (q # qs)" using Cons.prems q by auto
    then show ?thesis using ih by auto
  next
    case False
    then have "p = c # q \<or> p \<in> set qs" using Cons.prems q by auto
    then show ?thesis using ih [of q] ih [of p] by auto
  qed
qed

lemma strip_chars: "set (strip s) \<subseteq> set s"
proof -
  have "set (strip s) = set (dropWhile isspace_char (rev (dropWhile isspace_char s)))"
    by (simp add: strip_def)
  also have "\<dots> \<subseteq> set (rev (dropWhile isspace_char s))"
    by (rule set_dropWhileD [THEN subsetI])
  also have "\<dots> \<subseteq> set s"
    using set_dropWhileD [of _ isspace_char s] by auto
  finally show ?thesis .
qed

lemma ascii_never_raises: "ascii_text line \<Longrightarrow> \<not> test_raises (strip line)"
proof -
  assume a: "ascii_text line"
  have "list_all ascii_text (split_dot (strip line))"
    using a split_dot_chars [of _ "strip line"] strip_chars [of line]
    by (fastforce simp: ascii_text_def list_all_iff)
  then obtain ok where "all_parts_ok (split_dot (strip line)) = Inr ok"
    using ascii_all_parts_ok by blast
  then show ?thesis by (simp add: test_raises_def)
qed

lemma read_ip_file_ascii:
  "list_all ascii_text lines \<Longrightarrow> read_ip_file lines = Inr (reader_spec lines)"
  by (auto simp: read_ip_file_spec list_ex_iff list_all_iff dest: ascii_never_raises)

section \<open>The network prefix of canonical addresses\<close>

lemma join_dot_inject:
  assumes "ps \<noteq> []" "qs \<noteq> []" "\<forall>p\<in>set ps. CHR ''.'' \<notin> set p" "\<forall>q\<in>set qs. CHR ''.'' \<notin> set q"
  shows "join_dot ps = join_dot qs \<longleftrightarrow> ps = qs"
proof
  assume "join_dot ps = join_dot qs"
  then have "split_dot (join_dot ps) = split_dot (join_dot qs)" by simp
  then show "ps = qs" using assms by (simp add: split_join_dot)
qed simp

lemma canonical_part_inject:
  assumes "canonical_part p" "canonical_part q"
  shows "dec_value p = dec_value q \<longleftrightarrow> p = q"
proof
  assume "dec_value p = dec_value q"
  then have "py_str_nat (dec_value p) = py_str_nat (dec_value q)" by simp
  then show "p = q" using assms by (simp add: canonical_roundtrip)
qed simp

lemma high_octets:
  fixes a b c d :: int
  assumes "0 \<le> d" "d \<le> 255"
  shows "drop_bit 8 (push_bit 24 a + push_bit 16 b + push_bit 8 c + d)
         = a * 65536 + b * 256 + c"
proof -
  have "(a * 16777216 + b * 65536 + c * 256 + d) div 256 = a * 65536 + b * 256 + c"
    by (rule int_div_pos_eq [where r = d]) (use assms in auto)
  then show ?thesis by (simp add: push_bit_eq_mult drop_bit_eq_div)
qed

lemma octet_triple_inject:
  fixes a b c a' b' c' :: int
  assumes "0 \<le> a" "0 \<le> b" "b \<le> 255" "0 \<le> c" "c \<le> 255"
    and "0 \<le> a'" "0 \<le> b'" "b' \<le> 255" "0 \<le> c'" "c' \<le> 255"
  shows "a * 65536 + b * 256 + c = a' * 65536 + b' * 256 + c' \<longleftrightarrow> a = a' \<and> b = b' \<and> c = c'"
proof
  assume eq: "a * 65536 + b * 256 + c = a' * 65536 + b' * 256 + c'"
  have "(a * 65536 + b * 256 + c) mod 256 = c"
    by (rule int_mod_pos_eq [where q = "a * 256 + b"]) (use assms in auto)
  moreover have "(a' * 65536 + b' * 256 + c') mod 256 = c'"
    by (rule int_mod_pos_eq [where q = "a' * 256 + b'"]) (use assms in auto)
  ultimately have c: "c = c'" using eq by simp
  have "(a * 65536 + b * 256 + c) div 256 = a * 256 + b"
    by (rule int_div_pos_eq [where r = c]) (use assms in auto)
  moreover have "(a' * 65536 + b' * 256 + c') div 256 = a' * 256 + b'"
    by (rule int_div_pos_eq [where r = c']) (use assms in auto)
  ultimately have ab: "a * 256 + b = a' * 256 + b'" using eq by simp
  have "(a * 256 + b) mod 256 = b"
    by (rule int_mod_pos_eq [where q = a]) (use assms in auto)
  moreover have "(a' * 256 + b') mod 256 = b'"
    by (rule int_mod_pos_eq [where q = a']) (use assms in auto)
  ultimately have b: "b = b'" using ab by simp
  then show "a = a' \<and> b = b' \<and> c = c'" using ab c by simp
qed simp

lemma network_of_valid:
  assumes "valid_ip s" "split_dot s = [a, b, c, d]"
  shows "network_of s = join_dot [a, b, c]"
    and "drop_bit 8 (ip_val s)
         = int (dec_value a) * 65536 + int (dec_value b) * 256 + int (dec_value c)"
proof -
  show "network_of s = join_dot [a, b, c]"
    using assms(2) by (simp add: network_of_def)
  have oct: "octet_part a" "octet_part b" "octet_part c" "octet_part d"
    using assms by (simp_all add: valid_ip_def)
  have "ip_val s = push_bit 24 (int (dec_value a)) + push_bit 16 (int (dec_value b))
            + push_bit 8 (int (dec_value c)) + int (dec_value d)"
    using assms(2) oct by (simp add: ip_val_def ip_to_int_def octet_part_py_int)
  moreover have "0 \<le> int (dec_value d)" "int (dec_value d) \<le> 255"
    using oct(4) by (simp_all add: octet_part_iff)
  ultimately show "drop_bit 8 (ip_val s)
         = int (dec_value a) * 65536 + int (dec_value b) * 256 + int (dec_value c)"
    by (simp only: high_octets)
qed

lemma network_eq_iff:
  assumes "valid_ip s" "valid_ip t" "canonical_ip s" "canonical_ip t"
  shows "network_of s = network_of t \<longleftrightarrow> drop_bit 8 (ip_val s) = drop_bit 8 (ip_val t)"
proof -
  obtain a b c d where s: "split_dot s = [a, b, c, d]"
    and so: "octet_part a" "octet_part b" "octet_part c" "octet_part d"
    using assms(1) by (rule valid_ip_parts)
  obtain a' b' c' d' where t: "split_dot t = [a', b', c', d']"
    and to: "octet_part a'" "octet_part b'" "octet_part c'" "octet_part d'"
    using assms(2) by (rule valid_ip_parts)
  have nd: "\<forall>p\<in>set [a, b, c]. CHR ''.'' \<notin> set p" "\<forall>p\<in>set [a', b', c']. CHR ''.'' \<notin> set p"
    using split_dot_parts_no_dot [of _ s] split_dot_parts_no_dot [of _ t] s t by auto
  have cs: "canonical_part a" "canonical_part b" "canonical_part c"
    using assms(3) s by (simp_all add: canonical_ip_def)
  have ct: "canonical_part a'" "canonical_part b'" "canonical_part c'"
    using assms(4) t by (simp_all add: canonical_ip_def)
  have "network_of s = network_of t \<longleftrightarrow> [a, b, c] = [a', b', c']"
    using network_of_valid(1) [OF assms(1) s] network_of_valid(1) [OF assms(2) t]
      join_dot_inject [OF _ _ nd] by simp
  also have "\<dots> \<longleftrightarrow> dec_value a = dec_value a' \<and> dec_value b = dec_value b'
      \<and> dec_value c = dec_value c'"
    using canonical_part_inject [OF cs(1) ct(1)] canonical_part_inject [OF cs(2) ct(2)]
      canonical_part_inject [OF cs(3) ct(3)] by simp
  also have "\<dots> \<longleftrightarrow> int (dec_value a) * 65536 + int (dec_value b) * 256 + int (dec_value c)
      = int (dec_value a') * 65536 + int (dec_value b') * 256 + int (dec_value c')"
    using so to by (subst octet_triple_inject) (simp_all add: octet_part_iff)
  also have "\<dots> \<longleftrightarrow> drop_bit 8 (ip_val s) = drop_bit 8 (ip_val t)"
    using network_of_valid(2) [OF assms(1) s] network_of_valid(2) [OF assms(2) t] by simp
  finally show ?thesis .
qed

lemma fillable_canonical_iff:
  assumes "valid_ip p" "valid_ip c" "canonical_ip p" "canonical_ip c"
  shows "fillable p c \<longleftrightarrow>
     ip_val c div 256 = ip_val p div 256 \<and> 0 < ip_val c - ip_val p \<and> ip_val c - ip_val p \<le> 6"
  using network_eq_iff [OF assms(2,1,4,3)] by (simp add: fillable_def drop_bit_eq_div)

lemma sort_ips_sorted_canonical:
  assumes "list_all valid_ip l" "list_all canonical_ip l" "sorted (map ip_val l)"
  shows "sort_ips l = Inr l"
proof -
  have "sort (map ip_val l) = map ip_val l"
    using assms(3) by (rule sorted_sort_id)
  moreover have "map (\<lambda>s. int_to_ip (ip_val s)) l = l"
    using assms(1,2) by (intro map_idI) (simp add: list_all_iff valid_canonical_roundtrip)
  ultimately show ?thesis
    using assms(1) by (simp add: sort_ips_valid comp_def)
qed

section \<open>Claims\<close>

text \<open>
  C1: when two consecutive addresses have the same first three parts and a difference
  from 1 to 6, the loop step only moves the end of the open segment to the current
  address. (The first three parts are compared as text; for valid addresses without
  leading zeros this is the same as having equal values up to the last octet.) For every
  list of addresses that have values, \<open>process_ips\<close> returns a list
  in which, for each such pair of neighbours in the input, the addresses of all integers
  from the first value to the second stand next to each other in ascending order. A list
  of just two such addresses comes out as exactly that run, and
  \<open>192.168.1.1, 192.168.1.7\<close> gives the seven addresses from \<open>192.168.1.1\<close> to
  \<open>192.168.1.7\<close> in order.
\<close>

theorem C1_fill_range:
  "(state_ok st \<and> has_value cur \<and> fillable (previous_ip st) cur \<longrightarrow>
      process_step st cur =
        Inr (st\<lparr>end_ip := cur, previous_ip := cur, previous_int := ip_val cur\<rparr>))
   \<and> (valid_ip u \<and> valid_ip w \<and> canonical_ip u \<and> canonical_ip w \<longrightarrow>
      (fillable u w \<longleftrightarrow>
         ip_val w div 256 = ip_val u div 256 \<and> 0 < ip_val w - ip_val u
         \<and> ip_val w - ip_val u \<le> 6))
   \<and> ((\<forall>x\<in>set xs. has_value x) \<longrightarrow>
      (\<exists>out. process_ips xs = Inr out
         \<and> (\<forall>(p, c)\<in>set (zip xs (tl xs)). fillable p c \<longrightarrow>
              (\<exists>pre post. out = pre @ map int_to_ip [ip_val p..ip_val c] @ post))))
   \<and> (has_value a \<and> has_value b \<and> fillable a b \<longrightarrow>
      process_ips [a, b] = Inr (map int_to_ip [ip_val a..ip_val b]))
   \<and> process_ips [''192.168.1.1'', ''192.168.1.7''] =
      Inr [''192.168.1.1'', ''192.168.1.2'', ''192.168.1.3'', ''192.168.1.4'',
           ''192.168.1.5'', ''192.168.1.6'', ''192.168.1.7'']"
proof (intro conjI impI)
  assume "valid_ip u \<and> valid_ip w \<and> canonical_ip u \<and> canonical_ip w"
  then show "fillable u w \<longleftrightarrow>
         ip_val w div 256 = ip_val u div 256 \<and> 0 < ip_val w - ip_val u
         \<and> ip_val w - ip_val u \<le> 6"
    by (simp add: fillable_canonical_iff)
next
  assume "\<forall>x\<in>set xs. has_value x"
  then show "\<exists>out. process_ips xs = Inr out
         \<and> (\<forall>(p, c)\<in>set (zip xs (tl xs)). fillable p c \<longrightarrow>
              (\<exists>pre post. out = pre @ map int_to_ip [ip_val p..ip_val c] @ post))"
    by (rule process_ips_fill_runs)
next
  assume "state_ok st \<and> has_value cur \<and> fillable (previous_ip st) cur"
  then show "process_step st cur =
        Inr (st\<lparr>end_ip := cur, previous_ip := cur, previous_int := ip_val cur\<rparr>)"
    by (simp add: process_step_extend)
next
  assume "has_value a \<and> has_value b \<and> fillable a b"
  then show "process_ips [a, b] = Inr (map int_to_ip [ip_val a..ip_val b])"
    by (simp add: process_ips_pair)
next
  show "process_ips [''192.168.1.1'', ''192.168.1.7''] =
      Inr [''192.168.1.1'', ''192.168.1.2'', ''192.168.1.3'', ''192.168.1.4'',
           ''192.168.1.5'', ''192.168.1.6'', ''192.168.1.7'']"
    by code_simp
qed

theorem C1_fill_range_witness:
  "state_ok \<lparr>result = [], previous_ip = ''192.168.1.1'', previous_int = 3232235777,
             start_ip = ''192.168.1.1'', end_ip = ''192.168.1.1''\<rparr>
   \<and> has_value ''192.168.1.1'' \<and> has_value ''192.168.1.7''
   \<and> valid_ip ''192.168.1.1'' \<and> valid_ip ''192.168.1.7''
   \<and> canonical_ip ''192.168.1.1'' \<and> canonical_ip ''192.168.1.7''
   \<and> fillable ''192.168.1.1'' ''192.168.1.7''
   \<and> process_step \<lparr>result = [], previous_ip = ''192.168.1.1'', previous_int = 3232235777,
             start_ip = ''192.168.1.1'', end_ip = ''192.168.1.1''\<rparr> ''192.168.1.7''
      = Inr \<lparr>result = [], previous_ip = ''192.168.1.7'', previous_int = 3232235783,
             start_ip = ''192.168.1.1'', end_ip = ''192.168.1.7''\<rparr>
   \<and> process_ips [''192.168.1.1'', ''192.168.1.7'']
      = Inr (map int_to_ip [3232235777, 3232235778, 3232235779, 3232235780,
                            3232235781, 3232235782, 3232235783])"
proof -
  let ?st = "\<lparr>result = [], previous_ip = ''192.168.1.1'', previous_int = 3232235777,
             start_ip = ''192.168.1.1'', end_ip = ''192.168.1.1''\<rparr>"
  have ok: "state_ok ?st" by code_simp
  have a: "has_value ''192.168.1.1''" and b: "has_value ''192.168.1.7''" by code_simp+
  have f: "fillable ''192.168.1.1'' ''192.168.1.7''" by code_simp
  have vc: "valid_ip ''192.168.1.1''" "valid_ip ''192.168.1.7''"
    "canonical_ip ''192.168.1.1''" "canonical_ip ''192.168.1.7''" by code_simp+
  have va: "ip_val ''192.168.1.1'' = 3232235777" and vb: "ip_val ''192.168.1.7'' = 3232235783"
    by code_simp+
  have up: "[3232235777..3232235783::int] = [3232235777, 3232235778, 3232235779, 3232235780,
                            3232235781, 3232235782, 3232235783]" by code_simp
  show ?thesis
    using C1_fill_range [where st = ?st and cur = "''192.168.1.7''"
        and u = "''192.168.1.1''" and w = "''192.168.1.7''"
        and xs = "[''192.168.1.1'', ''192.168.1.7'']"
        and a = "''192.168.1.1''" and b = "''192.168.1.7''"]
      ok a b f vc by (simp add: va vb up)
qed

text \<open>
  C2: a list of two addresses that are not to be joined (different first three parts, or
  a difference outside 1 to 6) comes out unchanged; \<open>192.168.1.1, 192.168.1.9\<close> with
  difference 8 and \<open>192.168.1.254, 192.168.2.2\<close> with difference 4 across a /24 boundary
  both come out as they went in.
\<close>

theorem C2_no_fill:
  "(has_value a \<and> has_value b \<and> \<not> fillable a b \<longrightarrow> process_ips [a, b] = Inr [a, b])
   \<and> ip_val ''192.168.1.9'' - ip_val ''192.168.1.1'' = 8
   \<and> process_ips [''192.168.1.1'', ''192.168.1.9''] = Inr [''192.168.1.1'', ''192.168.1.9'']
   \<and> ip_val ''192.168.2.2'' - ip_val ''192.168.1.254'' = 4
   \<and> network_of ''192.168.2.2'' \<noteq> network_of ''192.168.1.254''
   \<and> process_ips [''192.168.1.254'', ''192.168.2.2'']
       = Inr [''192.168.1.254'', ''192.168.2.2'']"
proof (intro conjI impI)
  assume "has_value a \<and> has_value b \<and> \<not> fillable a b"
  then show "process_ips [a, b] = Inr [a, b]"
    by (simp add: process_ips_pair)
next
  show "ip_val ''192.168.1.9'' - ip_val ''192.168.1.1'' = 8"
    by code_simp
next
  show "process_ips [''192.168.1.1'', ''192.168.1.9'']
        = Inr [''192.168.1.1'', ''192.168.1.9'']"
    by code_simp
next
  show "ip_val ''192.168.2.2'' - ip_val ''192.168.1.254'' = 4"
    by code_simp
next
  show "network_of ''192.168.2.2'' \<noteq> network_of ''192.168.1.254''"
    by code_simp
next
  show "process_ips [''192.168.1.254'', ''192.168.2.2'']
        = Inr [''192.168.1.254'', ''192.168.2.2'']"
    by code_simp
qed

theorem C2_no_fill_witness:
  "has_value ''192.168.1.254'' \<and> has_value ''192.168.2.2''
   \<and> \<not> fillable ''192.168.1.254'' ''192.168.2.2''
   \<and> process_ips [''192.168.1.254'', ''192.168.2.2'']
       = Inr [''192.168.1.254'', ''192.168.2.2'']"
proof -
  have a: "has_value ''192.168.1.254''" and b: "has_value ''192.168.2.2''"
    by code_simp+
  have nf: "\<not> fillable ''192.168.1.254'' ''192.168.2.2''"
    by code_simp
  show ?thesis
    using C2_no_fill [of "''192.168.1.254''" "''192.168.2.2''"] a b nf by blast
qed

text \<open>
  C3: duplicates are not merged. When the current address has the same value as the
  previous one, the loop step closes the open segment and opens a new one at the
  current address; two addresses of equal value come out as the same two addresses; a
  list of \<open>n\<close> copies of one address comes out as \<open>n\<close> copies; for every list of valid
  addresses, each value occurs in the output at least as often as in the input; and
  \<open>10.0.0.5, 10.0.0.5\<close> gives \<open>10.0.0.5, 10.0.0.5\<close>.
\<close>

theorem C3_duplicates_kept:
  "(state_ok st \<and> has_value cur \<and> ip_val cur - previous_int st = 0 \<longrightarrow>
      process_step st cur =
        Inr (st\<lparr>result := result st @ segment_of st, start_ip := cur, end_ip := cur,
                previous_ip := cur, previous_int := ip_val cur\<rparr>))
   \<and> (has_value a \<and> has_value b \<and> ip_val b - ip_val a = 0 \<longrightarrow>
      process_ips [a, b] = Inr [a, b])
   \<and> (has_value s \<longrightarrow> process_ips (replicate n s) = Inr (replicate n s))
   \<and> (list_all valid_ip xs \<longrightarrow>
        (\<exists>out. process_ips xs = Inr out
           \<and> (\<forall>v. count_list (map ip_val xs) v \<le> count_list (map ip_val out) v)))
   \<and> process_ips [''10.0.0.5'', ''10.0.0.5''] = Inr [''10.0.0.5'', ''10.0.0.5'']"
proof (intro conjI impI)
  assume "list_all valid_ip xs"
  then show "\<exists>out. process_ips xs = Inr out
           \<and> (\<forall>v. count_list (map ip_val xs) v \<le> count_list (map ip_val out) v)"
    by (rule process_ips_no_merge)
next
  assume h: "state_ok st \<and> has_value cur \<and> ip_val cur - previous_int st = 0"
  then have "\<not> fillable (previous_ip st) cur"
    by (simp add: fillable_def state_ok_def)
  then show "process_step st cur =
        Inr (st\<lparr>result := result st @ segment_of st, start_ip := cur, end_ip := cur,
                previous_ip := cur, previous_int := ip_val cur\<rparr>)"
    using h by (simp add: process_step_close)
next
  assume h: "has_value a \<and> has_value b \<and> ip_val b - ip_val a = 0"
  then have "\<not> fillable a b" by (simp add: fillable_def)
  then show "process_ips [a, b] = Inr [a, b]"
    using h by (simp add: process_ips_pair)
next
  assume "has_value s"
  then show "process_ips (replicate n s) = Inr (replicate n s)"
    by (rule process_ips_replicate)
next
  show "process_ips [''10.0.0.5'', ''10.0.0.5''] = Inr [''10.0.0.5'', ''10.0.0.5'']"
    by code_simp
qed

theorem C3_duplicates_kept_witness:
  "state_ok \<lparr>result = [], previous_ip = ''10.0.0.5'', previous_int = 167772165,
             start_ip = ''10.0.0.5'', end_ip = ''10.0.0.5''\<rparr>
   \<and> has_value ''10.0.0.5'' \<and> ip_val ''10.0.0.5'' - 167772165 = 0
   \<and> process_step \<lparr>result = [], previous_ip = ''10.0.0.5'', previous_int = 167772165,
             start_ip = ''10.0.0.5'', end_ip = ''10.0.0.5''\<rparr> ''10.0.0.5''
      = Inr \<lparr>result = [''10.0.0.5''], previous_ip = ''10.0.0.5'', previous_int = 167772165,
             start_ip = ''10.0.0.5'', end_ip = ''10.0.0.5''\<rparr>
   \<and> process_ips [''10.0.0.5'', ''10.0.0.5'', ''10.0.0.5'']
      = Inr [''10.0.0.5'', ''10.0.0.5'', ''10.0.0.5'']
   \<and> list_all valid_ip [''10.0.0.5'', ''10.0.0.5'', ''10.0.0.6'']
   \<and> process_ips [''10.0.0.5'', ''10.0.0.5'', ''10.0.0.6'']
      = Inr [''10.0.0.5'', ''10.0.0.5'', ''10.0.0.6'']"
proof -
  have vx: "list_all valid_ip [''10.0.0.5'', ''10.0.0.5'', ''10.0.0.6'']" by code_simp
  have px: "process_ips [''10.0.0.5'', ''10.0.0.5'', ''10.0.0.6'']
      = Inr [''10.0.0.5'', ''10.0.0.5'', ''10.0.0.6'']" by code_simp
  let ?st = "\<lparr>result = [], previous_ip = ''10.0.0.5'', previous_int = 167772165,
             start_ip = ''10.0.0.5'', end_ip = ''10.0.0.5''\<rparr>"
  have ok: "state_ok ?st" by code_simp
  have a: "has_value ''10.0.0.5''" by code_simp
  have v: "ip_val ''10.0.0.5'' = 167772165" by code_simp
  have r: "replicate 3 ''10.0.0.5'' = [''10.0.0.5'', ''10.0.0.5'', ''10.0.0.5'']"
    by (simp add: numeral_3_eq_3)
  show ?thesis
    using C3_duplicates_kept [where st = ?st and cur = "''10.0.0.5''" and a = "''10.0.0.5''"
        and b = "''10.0.0.5''" and s = "''10.0.0.5''" and n = 3
        and xs = "[''10.0.0.5'', ''10.0.0.5'', ''10.0.0.6'']"] ok a vx px
    by (simp add: v r segment_of_def)
qed

text \<open>
  C4: for every list of valid addresses sorted ascending by value, \<open>process_ips\<close>
  returns a list of valid addresses whose values never decrease. The list is a sequence
  of blocks, each one input address as it was read or the addresses of all integers from
  the value of one input address up to the value of another, without a gap; and for each
  pair of neighbours in the input that is joined, the addresses of all integers from the
  first value to the second stand next to each other in the output, with consecutive
  values.
\<close>

theorem C4_output_sorted_gapless:
  "list_all valid_ip xs \<Longrightarrow> sorted (map ip_val xs) \<Longrightarrow>
   \<exists>out. process_ips xs = Inr out \<and> list_all valid_ip out \<and> sorted (map ip_val out)
     \<and> (\<exists>blocks. out = concat blocks
           \<and> (\<forall>b\<in>set blocks. single_block xs b \<or> expanded_block xs b))
     \<and> (\<forall>(p, c)\<in>set (zip xs (tl xs)). fillable p c \<longrightarrow>
          (\<exists>pre post. out = pre @ map int_to_ip [ip_val p..ip_val c] @ post)
          \<and> map ip_val (map int_to_ip [ip_val p..ip_val c]) = [ip_val p..ip_val c])"
proof -
  assume v: "list_all valid_ip xs" and s: "sorted (map ip_val xs)"
  obtain out where out: "process_ips xs = Inr out" "list_all valid_ip out"
    "sorted (map ip_val out)" "output_blocks xs out"
    using process_ips_sorted_blocks [OF v s] by blast
  have hv: "\<forall>x\<in>set xs. has_value x"
    using v by (auto simp: list_all_iff valid_has_value)
  have runs: "\<forall>(p, c)\<in>set (zip xs (tl xs)). fillable p c \<longrightarrow>
          (\<exists>pre post. out = pre @ map int_to_ip [ip_val p..ip_val c] @ post)"
    using process_ips_fill_runs [OF hv] out(1) by simp
  have vals: "map ip_val (map int_to_ip [ip_val p..ip_val c]) = [ip_val p..ip_val c]"
    if "(p, c) \<in> set (zip xs (tl xs))" for p c
  proof -
    have "p \<in> set xs" "c \<in> set (tl xs)"
      using that by (auto dest: set_zip_leftD set_zip_rightD)
    moreover have "set (tl xs) \<subseteq> set xs" by (cases xs) auto
    ultimately have "valid_ip p" "valid_ip c"
      using v by (auto simp: list_all_iff)
    then show ?thesis by (rule ip_val_range)
  qed
  have "\<exists>blocks. out = concat blocks
           \<and> (\<forall>b\<in>set blocks. single_block xs b \<or> expanded_block xs b)"
    using out(4) by (simp add: output_blocks_def)
  then show ?thesis using out(1-3) runs vals by fastforce
qed

theorem C4_output_sorted_gapless_witness:
  "list_all valid_ip [''192.168.1.1'', ''192.168.1.3'', ''192.168.2.9'']
   \<and> sorted (map ip_val [''192.168.1.1'', ''192.168.1.3'', ''192.168.2.9''])
   \<and> fillable ''192.168.1.1'' ''192.168.1.3''
   \<and> process_ips [''192.168.1.1'', ''192.168.1.3'', ''192.168.2.9'']
       = Inr [''192.168.1.1'', ''192.168.1.2'', ''192.168.1.3'', ''192.168.2.9'']
   \<and> sorted (map ip_val [''192.168.1.1'', ''192.168.1.2'', ''192.168.1.3'', ''192.168.2.9''])"
proof -
  have v: "list_all valid_ip [''192.168.1.1'', ''192.168.1.3'', ''192.168.2.9'']"
    by code_simp
  have s: "sorted (map ip_val [''192.168.1.1'', ''192.168.1.3'', ''192.168.2.9''])"
    by code_simp
  have p: "process_ips [''192.168.1.1'', ''192.168.1.3'', ''192.168.2.9'']
       = Inr [''192.168.1.1'', ''192.168.1.2'', ''192.168.1.3'', ''192.168.2.9'']"
    by code_simp
  have f: "fillable ''192.168.1.1'' ''192.168.1.3''"
    by code_simp
  obtain out where "process_ips [''192.168.1.1'', ''192.168.1.3'', ''192.168.2.9''] = Inr out"
    "sorted (map ip_val out)"
    using C4_output_sorted_gapless [OF v s] by blast
  then show ?thesis using v s p f by simp
qed

text \<open>
  C5: for every integer \<open>x\<close> from 0 to \<open>2^32 - 1\<close>, printing \<open>x\<close> as a dotted quad with
  \<open>int_to_ip\<close> and reading the result with \<open>ip_to_int\<close> raises nothing and gives \<open>x\<close> back.
\<close>

theorem C5_int_roundtrip:
  "0 \<le> x \<Longrightarrow> x \<le> 2 ^ 32 - 1 \<Longrightarrow> ip_to_int (int_to_ip x) = Inr x"
  by (simp add: ip_to_int_int_to_ip_mod)

theorem C5_int_roundtrip_witness:
  "(0::int) \<le> 3232235777 \<and> (3232235777::int) \<le> 2 ^ 32 - 1
   \<and> ip_to_int (int_to_ip 3232235777) = Inr 3232235777"
  using C5_int_roundtrip [of 3232235777] by simp

text \<open>
  C6, as claimed: every valid dotted quad is printed back unchanged after conversion to
  its integer. The address \<open>001.002.003.004\<close> is valid, has the value 16909060, and is
  printed back as \<open>1.2.3.4\<close>.
\<close>

theorem C6_leading_zeros_counterexample:
  "valid_ip ''001.002.003.004''
   \<and> ip_to_int ''001.002.003.004'' = Inr 16909060
   \<and> int_to_ip 16909060 = ''1.2.3.4''
   \<and> int_to_ip 16909060 \<noteq> ''001.002.003.004''"
  by code_simp

text \<open>
  C6, amended: every valid dotted quad \<open>s\<close> has an integer value \<open>v\<close>; printing \<open>v\<close>
  gives \<open>s\<close> back exactly when no part of \<open>s\<close> has a leading zero, and in every case
  gives an address with the same value \<open>v\<close>.
\<close>

theorem C6_roundtrip_canonical:
  "valid_ip s \<Longrightarrow>
   \<exists>v. ip_to_int s = Inr v
     \<and> (canonical_ip s \<longrightarrow> int_to_ip v = s)
     \<and> (int_to_ip v = s \<longrightarrow> canonical_ip s)
     \<and> ip_to_int (int_to_ip v) = Inr v"
proof -
  assume v: "valid_ip s"
  have "ip_to_int s = Inr (ip_val s)" using v by (rule valid_ip_to_int(1))
  moreover have "canonical_ip s \<longrightarrow> int_to_ip (ip_val s) = s"
    using v by (simp add: roundtrip_iff_canonical)
  moreover have "int_to_ip (ip_val s) = s \<longrightarrow> canonical_ip s"
    using v by (simp add: roundtrip_iff_canonical)
  moreover have "ip_to_int (int_to_ip (ip_val s)) = Inr (ip_val s)"
    using valid_ip_to_int(2,3) [OF v] by (rule ip_to_int_int_to_ip)
  ultimately show ?thesis by blast
qed

theorem C6_roundtrip_canonical_witness:
  "valid_ip ''192.168.1.1'' \<and> canonical_ip ''192.168.1.1''
   \<and> ip_to_int ''192.168.1.1'' = Inr 3232235777
   \<and> int_to_ip 3232235777 = ''192.168.1.1''"
proof -
  have v: "valid_ip ''192.168.1.1''" and c: "canonical_ip ''192.168.1.1''"
    by code_simp+
  have i: "ip_to_int ''192.168.1.1'' = Inr 3232235777" by code_simp
  show ?thesis
    using C6_roundtrip_canonical [OF v] c v i by auto
qed

text \<open>
  C7, at a failing input. On ordinary lines the Reader does what is specified: blank
  lines, \<open>999.1.1.1\<close> and \<open>1.2.3\<close> are dropped and \<open>10.0.0.1\<close> is kept without its
  surrounding white space. In the second input the second line has four parts, and its
  first part is the single character U+00B2: \<open>isdigit\<close> accepts it, \<open>int\<close> raises
  \<open>ValueError\<close> on it. The specification's Reader drops that line and keeps \<open>1.2.3.4\<close>;
  \<open>read_ip_file\<close> ends the process with status 1.
\<close>

theorem C7_reader_aborts:
  "read_ip_file [''999.1.1.1'', [], ''1.2.3'', '' 10.0.0.1 '' @ [CHR 0x0A]] = Inr [''10.0.0.1'']
   \<and> isdigit [CHR 0xB2] \<and> py_int [CHR 0xB2] = Inl ValueError
   \<and> reader_spec [''1.2.3.4'', CHR 0xB2 # ''.1.1.1''] = [''1.2.3.4'']
   \<and> read_ip_file [''1.2.3.4'', CHR 0xB2 # ''.1.1.1''] = Inl (SystemExit 1)"
  by code_simp

text \<open>
  C8: for every list of valid addresses the sorter returns a list, and sorting that list
  again returns the same list. A list of valid addresses without leading zeros that is
  already sorted by value is returned as it is.
\<close>

theorem C8_sort_idempotent:
  "(list_all valid_ip l \<longrightarrow> (\<exists>l'. sort_ips l = Inr l' \<and> sort_ips l' = Inr l'))
   \<and> (list_all valid_ip m \<and> list_all canonical_ip m \<and> sorted (map ip_val m) \<longrightarrow>
        sort_ips m = Inr m)"
  using sort_ips_idem [of l] sort_ips_sorted_canonical [of m] by blast

theorem C8_sort_idempotent_witness:
  "list_all valid_ip [''10.0.0.2'', ''010.0.0.1'']
   \<and> sort_ips [''10.0.0.2'', ''010.0.0.1''] = Inr [''10.0.0.1'', ''10.0.0.2'']
   \<and> sort_ips [''10.0.0.1'', ''10.0.0.2''] = Inr [''10.0.0.1'', ''10.0.0.2'']
   \<and> list_all valid_ip [''10.0.0.1'', ''10.0.0.2'']
   \<and> list_all canonical_ip [''10.0.0.1'', ''10.0.0.2'']
   \<and> sorted (map ip_val [''10.0.0.1'', ''10.0.0.2''])"
proof -
  have m: "list_all valid_ip [''10.0.0.1'', ''10.0.0.2'']"
    "list_all canonical_ip [''10.0.0.1'', ''10.0.0.2'']"
    "sorted (map ip_val [''10.0.0.1'', ''10.0.0.2''])" by code_simp+
  have v: "list_all valid_ip [''10.0.0.2'', ''010.0.0.1'']" by code_simp
  have s: "sort_ips [''10.0.0.2'', ''010.0.0.1''] = Inr [''10.0.0.1'', ''10.0.0.2'']"
    by code_simp
  note inst = C8_sort_idempotent [of "[''10.0.0.2'', ''010.0.0.1'']" "[''10.0.0.1'', ''10.0.0.2'']"]
  obtain l' where "sort_ips [''10.0.0.2'', ''010.0.0.1''] = Inr l'" "sort_ips l' = Inr l'"
    using inst v by blast
  then show ?thesis using v s m by simp
qed

text \<open>
  C9, as claimed: four numeric parts are combined with bitwise or. The address
  \<open>1.256.0.0\<close> has the four numeric parts 1, 256, 0 and 0; \<open>ip_to_int\<close> returns
  33554432, their shifted sum, while the bitwise or of the shifted parts is 16777216.
\<close>

theorem C9_sum_not_or_counterexample:
  "split_dot ''1.256.0.0'' = [''1'', ''256'', ''0'', ''0'']
   \<and> py_int ''1'' = Inr 1 \<and> py_int ''256'' = Inr 256 \<and> py_int ''0'' = Inr 0
   \<and> ip_to_int ''1.256.0.0'' = Inr 33554432
   \<and> (push_bit 24 1 OR push_bit 16 256 OR push_bit 8 0 OR (0::int)) = 16777216
   \<and> ip_to_int ''1.256.0.0'' \<noteq> Inr (push_bit 24 1 OR push_bit 16 256 OR push_bit 8 0 OR 0)"
proof -
  have 1: "split_dot ''1.256.0.0'' = [''1'', ''256'', ''0'', ''0'']" by code_simp
  have 2: "py_int ''1'' = Inr 1" "py_int ''256'' = Inr 256" "py_int ''0'' = Inr 0"
    by code_simp+
  have 3: "ip_to_int ''1.256.0.0'' = Inr 33554432" by code_simp
  have 4: "(push_bit 24 1 OR push_bit 16 256 OR push_bit 8 0 OR (0::int)) = 16777216"
    by simp
  show ?thesis using 1 2 3 4 by simp
qed

text \<open>
  C9, amended: \<open>ip_to_int\<close> raises \<open>ValueError\<close> whenever the split does not give exactly
  four parts. When it gives four parts that \<open>int\<close> accepts, the result is the sum of the
  four values shifted left by 24, 16, 8 and 0 bits, whatever their range; when each value
  is between 0 and 255 that sum is the bitwise or of the shifted values and lies between
  0 and \<open>2^32 - 1\<close>.
\<close>

theorem C9_ip_to_int_sum:
  "(length (split_dot t) \<noteq> 4 \<longrightarrow> ip_to_int t = Inl ValueError)
   \<and> (split_dot s = [p0, p1, p2, p3]
       \<and> py_int p0 = Inr a \<and> py_int p1 = Inr b \<and> py_int p2 = Inr c \<and> py_int p3 = Inr d \<longrightarrow>
      ip_to_int s = Inr (push_bit 24 a + push_bit 16 b + push_bit 8 c + d)
      \<and> (0 \<le> a \<and> a \<le> 255 \<and> 0 \<le> b \<and> b \<le> 255 \<and> 0 \<le> c \<and> c \<le> 255 \<and> 0 \<le> d \<and> d \<le> 255 \<longrightarrow>
           ip_to_int s = Inr (push_bit 24 a OR push_bit 16 b OR push_bit 8 c OR d)
           \<and> 0 \<le> push_bit 24 a + push_bit 16 b + push_bit 8 c + d
           \<and> push_bit 24 a + push_bit 16 b + push_bit 8 c + d \<le> 2 ^ 32 - 1))"
proof -
  have len: "ip_to_int t = Inl ValueError" if "length (split_dot t) \<noteq> 4"
    using that by (simp add: ip_to_int_def)
  have sum: "ip_to_int s = Inr (push_bit 24 a + push_bit 16 b + push_bit 8 c + d)"
    if "split_dot s = [p0, p1, p2, p3]" "py_int p0 = Inr a" "py_int p1 = Inr b"
      "py_int p2 = Inr c" "py_int p3 = Inr d"
    using that by (simp add: ip_to_int_def)
  have rng: "push_bit 24 a + push_bit 16 b + push_bit 8 c + d
        = push_bit 24 a OR push_bit 16 b OR push_bit 8 c OR d
      \<and> 0 \<le> push_bit 24 a + push_bit 16 b + push_bit 8 c + d
      \<and> push_bit 24 a + push_bit 16 b + push_bit 8 c + d \<le> 2 ^ 32 - 1"
    if r: "0 \<le> a" "a \<le> 255" "0 \<le> b" "b \<le> 255" "0 \<le> c" "c \<le> 255" "0 \<le> d" "d \<le> 255"
  proof -
    have "push_bit 24 a + push_bit 16 b + push_bit 8 c + d < 2 ^ 32"
      using octets_of_sum(6) [OF r refl] .
    then have "push_bit 24 a + push_bit 16 b + push_bit 8 c + d \<le> 2 ^ 32 - 1"
      by linarith
    then show ?thesis
      using octets_sum_eq_or [OF r] octets_of_sum(5) [OF r refl] by blast
  qed
  show ?thesis
    using len sum rng by metis
qed

theorem C9_ip_to_int_sum_witness:
  "length (split_dot ''1.2.3'') \<noteq> 4 \<and> ip_to_int ''1.2.3'' = Inl ValueError
   \<and> split_dot ''10.0.1.5'' = [''10'', ''0'', ''1'', ''5'']
   \<and> py_int ''10'' = Inr 10 \<and> py_int ''0'' = Inr 0 \<and> py_int ''1'' = Inr 1
   \<and> py_int ''5'' = Inr 5
   \<and> ip_to_int ''10.0.1.5'' = Inr (push_bit 24 10 OR push_bit 16 0 OR push_bit 8 1 OR 5)
   \<and> ip_to_int ''10.0.1.5'' = Inr 167772421"
proof -
  have l: "length (split_dot ''1.2.3'') \<noteq> 4" by code_simp
  have sp: "split_dot ''10.0.1.5'' = [''10'', ''0'', ''1'', ''5'']" by code_simp
  have pi: "py_int ''10'' = Inr 10" "py_int ''0'' = Inr 0" "py_int ''1'' = Inr 1"
    "py_int ''5'' = Inr 5" by code_simp+
  show ?thesis
    using C9_ip_to_int_sum [of "''1.2.3''" "''10.0.1.5''" "''10''" "''0''" "''1''" "''5''"
        10 0 1 5] l sp pi
    by simp
qed

text \<open>
  C10: for every list of valid addresses, the sorter returns a list in which every
  address is canonical: it is what \<open>int_to_ip\<close> prints for its own value, and none of its
  parts has a leading zero. So the output need not consist of the input strings: the
  valid address \<open>001.002.003.004\<close> comes out as \<open>1.2.3.4\<close>, which is not in the input.
\<close>

theorem C10_sort_output_canonical:
  "(list_all valid_ip xs \<longrightarrow>
      (\<exists>out. sort_ips xs = Inr out
         \<and> (\<forall>s\<in>set out. \<exists>v. ip_to_int s = Inr v \<and> int_to_ip v = s \<and> canonical_ip s)))
   \<and> valid_ip ''001.002.003.004''
   \<and> sort_ips [''001.002.003.004''] = Inr [''1.2.3.4'']
   \<and> ''1.2.3.4'' \<notin> set [''001.002.003.004'']"
proof (intro conjI impI)
  assume v: "list_all valid_ip xs"
  let ?out = "map int_to_ip (sort (map ip_val xs))"
  have range: "\<forall>v\<in>set (map ip_val xs). 0 \<le> v \<and> v < 2 ^ 32"
    using v by (rule valid_values_in_range)
  have "\<exists>v. ip_to_int s = Inr v \<and> int_to_ip v = s \<and> canonical_ip s"
    if sin: "s \<in> set ?out" for s
  proof -
    obtain x where "x \<in> set (sort (map ip_val xs))" and sx: "s = int_to_ip x"
      using sin by auto
    then have x: "x \<in> set (map ip_val xs)" "s = int_to_ip x"
      by simp_all
    then have "0 \<le> x" "x < 2 ^ 32" using range by blast+
    then have "ip_to_int s = Inr x" using x(2) by (simp only: ip_to_int_int_to_ip)
    then show ?thesis using x(2) int_to_ip_canonical [of x] by blast
  qed
  then show "\<exists>out. sort_ips xs = Inr out
         \<and> (\<forall>s\<in>set out. \<exists>v. ip_to_int s = Inr v \<and> int_to_ip v = s \<and> canonical_ip s)"
    using sort_ips_valid [OF v] by blast
next
  show "valid_ip ''001.002.003.004''" by code_simp
next
  show "sort_ips [''001.002.003.004''] = Inr [''1.2.3.4'']" by code_simp
next
  show "''1.2.3.4'' \<notin> set [''001.002.003.004'']" by simp
qed

theorem C10_sort_output_canonical_witness:
  "list_all valid_ip [''10.0.0.2'', ''001.002.003.004'']
   \<and> sort_ips [''10.0.0.2'', ''001.002.003.004''] = Inr [''1.2.3.4'', ''10.0.0.2'']
   \<and> ip_to_int ''1.2.3.4'' = Inr 16909060 \<and> int_to_ip 16909060 = ''1.2.3.4''
   \<and> canonical_ip ''1.2.3.4''"
proof -
  have v: "list_all valid_ip [''10.0.0.2'', ''001.002.003.004'']" by code_simp
  have s: "sort_ips [''10.0.0.2'', ''001.002.003.004''] = Inr [''1.2.3.4'', ''10.0.0.2'']"
    by code_simp
  have i: "ip_to_int ''1.2.3.4'' = Inr 16909060" by code_simp
  obtain out where out: "sort_ips [''10.0.0.2'', ''001.002.003.004''] = Inr out"
    "\<forall>s\<in>set out. \<exists>v. ip_to_int s = Inr v \<and> int_to_ip v = s \<and> canonical_ip s"
    using C10_sort_output_canonical [of "[''10.0.0.2'', ''001.002.003.004'']"] v by blast
  have "''1.2.3.4'' \<in> set out" using out(1) s by auto
  then have "\<exists>v. ip_to_int ''1.2.3.4'' = Inr v \<and> int_to_ip v = ''1.2.3.4''
      \<and> canonical_ip ''1.2.3.4''"
    using out(2) by blast
  then show ?thesis using v s i by auto
qed

end
